theory Spec2Isabelle
  imports Main "HOL-Library.Countable" "HOL-Library.Word" "HOL-Library.Char_ord" "HOL-Library.List_Lexorder"
begin

section \<open>MiniJson: value model, serializer and recursive-descent parser\<close>

text \<open>
  A shallow embedding of \<^verbatim>\<open>minijson.hpp\<close>. A \<^verbatim>\<open>std::string\<close> is a \<open>string\<close> (a list of
  8-bit characters), a thrown exception is the \<open>Inl\<close> branch of a sum, the parser's cursor
  into its immutable view is the unread rest of the input, and a \<^verbatim>\<open>std::map\<close> is the list
  of its entries in iteration order, that is, in strictly ascending key order.
\<close>

subsection \<open>Exceptions\<close>

text \<open>
  \<open>runtime_error\<close> is what the parser throws itself (the spec's SyntaxError),
  \<open>out_of_range\<close> and \<open>invalid_argument\<close> come from \<^verbatim>\<open>std::stod\<close> and \<^verbatim>\<open>std::map::at\<close>,
  \<open>bad_variant_access\<close> from \<^verbatim>\<open>std::get\<close> on the wrong alternative (the spec's TypeMismatch).
  \<open>dangling_reference\<close> is no exception: it stands for the read of an object after its
  destruction, where the behaviour of the program is undefined and the model stops.
\<close>

datatype error =
  runtime_error string | out_of_range | invalid_argument | bad_variant_access | dangling_reference

fun is_SyntaxError :: "error \<Rightarrow> bool" where
  "is_SyntaxError (runtime_error msg) = True"
| "is_SyntaxError e = False"

subsection \<open>Character classes of the C locale\<close>

definition isdigit :: "char \<Rightarrow> bool" where
  "isdigit c = (CHR ''0'' \<le> c \<and> c \<le> CHR ''9'')"

text \<open>\<^verbatim>\<open>std::isspace\<close> in the default C locale: space, and the five controls 0x09 to 0x0D.\<close>

definition isspace :: "char \<Rightarrow> bool" where
  "isspace c = (c = CHR '' '' \<or> c = CHR 0x09 \<or> c = CHR 0x0A \<or> c = CHR 0x0B
                \<or> c = CHR 0x0C \<or> c = CHR 0x0D)"

definition digit_val :: "char \<Rightarrow> nat" where
  "digit_val c = of_char c - 48"

definition digit_char :: "nat \<Rightarrow> char" where
  "digit_char d = ''0123456789'' ! d"

subsection \<open>Doubles\<close>

text \<open>
  An IEEE 754 binary64 value by its three fields. With biased exponent \<open>0\<close> the value is
  \<open>frac * 2^-1074\<close> (zero or subnormal), with biased exponent \<open>2047\<close> it is an infinity
  (\<open>frac = 0\<close>) or a NaN, and otherwise it is \<open>(2^52 + frac) * 2^(expo - 1075)\<close>.
\<close>

datatype double = Double (sign: bool) (expo: "11 word") (frac: "52 word")

definition isfinite :: "double \<Rightarrow> bool" where
  "isfinite d = (expo d \<noteq> 2047)"

text \<open>The magnitude of a finite double as \<open>m * 2^e\<close>.\<close>

definition significand :: "double \<Rightarrow> nat" where
  "significand d = (if expo d = 0 then unat (frac d) else 2 ^ 52 + unat (frac d))"

definition exponent :: "double \<Rightarrow> int" where
  "exponent d = (if expo d = 0 then - 1074 else int (unat (expo d)) - 1075)"

text \<open>The number of base-\<open>b\<close> digits of a natural number (0 for 0).\<close>

function ndigits :: "nat \<Rightarrow> nat \<Rightarrow> nat" where
  "ndigits b n = (if n = 0 \<or> b < 2 then 0 else 1 + ndigits b (n div b))"
  by pat_completeness auto
termination
  by (relation "measure (\<lambda>(b, n). n)") auto

declare ndigits.simps [simp del]

text \<open>
  \<open>ilog b num den\<close> is the integer \<open>X\<close> with \<open>b^X \<le> num / den < b^(X+1)\<close>, for positive
  \<open>num\<close> and \<open>den\<close>: the exponent of the leading base-\<open>b\<close> digit of the fraction.
\<close>

definition ilog :: "nat \<Rightarrow> nat \<Rightarrow> nat \<Rightarrow> int" where
  "ilog b num den =
     (if den \<le> num then int (ndigits b (num div den)) - 1
      else - int (ndigits b ((den - 1) div num)))"

text \<open>Rounding a fraction to the nearest integer, ties to the even one.\<close>

definition round_half_even :: "nat \<Rightarrow> nat \<Rightarrow> nat" where
  "round_half_even num den =
     (let q = num div den; r = num mod den
      in if 2 * r < den then q
         else if den < 2 * r then q + 1
         else if even q then q else q + 1)"

text \<open>\<open>round_scaled b num den k\<close> rounds \<open>(num / den) / b^k\<close>.\<close>

definition round_scaled :: "nat \<Rightarrow> nat \<Rightarrow> nat \<Rightarrow> int \<Rightarrow> nat" where
  "round_scaled b num den k =
     (if 0 \<le> k then round_half_even num (den * b ^ nat k)
      else round_half_even (num * b ^ nat (- k)) den)"

definition exact_scaled :: "nat \<Rightarrow> nat \<Rightarrow> nat \<Rightarrow> int \<Rightarrow> bool" where
  "exact_scaled b num den k =
     (if 0 \<le> k then num mod (den * b ^ nat k) = 0
      else (num * b ^ nat (- k)) mod den = 0)"

subsubsection \<open>Decimal text to double: \<^verbatim>\<open>std::stod\<close>\<close>

text \<open>
  \<^verbatim>\<open>std::stod\<close> is the C++ library's, not this repository's; it is modelled from its
  specification: \<^verbatim>\<open>strtod\<close> reads the longest prefix that is a decimal floating constant
  (optional white space and sign, digits with an optional point, an optional exponent)
  and rounds its exact value to the nearest double, ties to even; \<^verbatim>\<open>stod\<close> throws
  \<^verbatim>\<open>invalid_argument\<close> when nothing could be converted and \<^verbatim>\<open>out_of_range\<close> when \<^verbatim>\<open>strtod\<close>
  sets \<^verbatim>\<open>ERANGE\<close>. The value overflows when it is at least \<open>2^1024 - 2^970\<close>, half an ulp
  above the largest finite double. Whether an underflow sets \<^verbatim>\<open>ERANGE\<close> is left to the
  implementation by the C standard; the model follows glibc on x86-64, which sets it when
  the result is inexact and the value is tiny after rounding: rounded to 53 bits as if the
  exponent had no lower bound, it is still below the smallest normal double \<open>2^-1022\<close>. The
  hexadecimal, \<^verbatim>\<open>inf\<close> and \<^verbatim>\<open>nan\<close> forms of \<^verbatim>\<open>strtod\<close> are left out: \<open>parse_number\<close> passes
  digits, signs, a point and \<open>e\<close> or \<open>E\<close> only.
\<close>

definition digits_val :: "string \<Rightarrow> nat" where
  "digits_val ds = foldl (\<lambda>a c. 10 * a + digit_val c) 0 ds"

text \<open>
  The double nearest to the positive fraction \<open>num / den\<close>, ties to even, for a value below
  the overflow threshold: the significand is rounded at the exponent of the value, or at
  \<open>-1074\<close> where the value is below the normal range.
\<close>

definition to_double :: "bool \<Rightarrow> nat \<Rightarrow> nat \<Rightarrow> double" where
  "to_double neg num den =
     (let e0 = max (ilog 2 num den - 52) (- 1074);
          m0 = round_scaled 2 num den e0;
          m = (if m0 = 2 ^ 53 then 2 ^ 52 else m0);
          e = (if m0 = 2 ^ 53 then e0 + 1 else e0)
      in if m < 2 ^ 52 then Double neg 0 (of_nat m)
         else Double neg (of_int (e + 1075)) (of_nat (m - 2 ^ 52)))"

text \<open>The underflow that sets \<^verbatim>\<open>ERANGE\<close>: tiny after rounding, and inexact.\<close>

definition underflows :: "nat \<Rightarrow> nat \<Rightarrow> bool" where
  "underflows num den =
     (let E = ilog 2 num den
      in (E < - 1023 \<or> (E = - 1023 \<and> round_scaled 2 num den (E - 52) \<noteq> 2 ^ 53)) \<and>
         \<not> exact_scaled 2 num den (max (E - 52) (- 1074)))"

text \<open>The result of \<^verbatim>\<open>strtod\<close> on the fraction \<open>num / den\<close>: the \<^verbatim>\<open>ERANGE\<close> flag and the double.\<close>

definition strtod_round :: "bool \<Rightarrow> nat \<Rightarrow> nat \<Rightarrow> bool \<times> double" where
  "strtod_round neg num den =
     (if num = 0 then (False, Double neg 0 0)
      else if (2 ^ 1024 - 2 ^ 970) * den \<le> num then (True, Double neg 2047 0)
      else (underflows num den, to_double neg num den))"

text \<open>The exponent part of a decimal constant, when one is there: its value and the rest.\<close>

definition strtod_exponent :: "string \<Rightarrow> int \<times> string" where
  "strtod_exponent s =
     (case s of
        [] \<Rightarrow> (0, s)
      | c # t \<Rightarrow>
          if c = CHR ''e'' \<or> c = CHR ''E'' then
            (let neg = (t \<noteq> [] \<and> hd t = CHR ''-'');
                 t' = (if t \<noteq> [] \<and> (hd t = CHR ''+'' \<or> hd t = CHR ''-'') then tl t else t);
                 ds = takeWhile isdigit t'
             in if ds = [] then (0, s)
                else ((if neg then - int (digits_val ds) else int (digits_val ds)),
                      dropWhile isdigit t'))
          else (0, s))"

definition stod :: "string \<Rightarrow> error + double" where
  "stod str =
     (let s0 = dropWhile isspace str;
          neg = (s0 \<noteq> [] \<and> hd s0 = CHR ''-'');
          s1 = (if s0 \<noteq> [] \<and> (hd s0 = CHR ''+'' \<or> hd s0 = CHR ''-'') then tl s0 else s0);
          ip = takeWhile isdigit s1;
          s2 = dropWhile isdigit s1;
          fp = (if s2 \<noteq> [] \<and> hd s2 = CHR ''.'' then takeWhile isdigit (tl s2) else []);
          s3 = (if s2 \<noteq> [] \<and> hd s2 = CHR ''.'' then dropWhile isdigit (tl s2) else s2)
      in if ip @ fp = [] then Inl invalid_argument
         else
           let ex = fst (strtod_exponent s3) - int (length fp);
               mant = digits_val (ip @ fp);
               r = (if 0 \<le> ex then strtod_round neg (mant * 10 ^ nat ex) 1
                    else strtod_round neg mant (10 ^ nat (- ex)))
           in if fst r then Inl out_of_range else Inr (snd r))"

subsubsection \<open>Double to decimal text: stream insertion with precision 15\<close>

text \<open>
  \<^verbatim>\<open>oss.precision(15); oss << d\<close> with the default float field formats as \<^verbatim>\<open>printf\<close> does
  with \<^verbatim>\<open>%.15g\<close>; modelled from the C standard. The value is rounded to 15 significant
  decimal digits; with \<open>X\<close> the decimal exponent of the rounded value, the fixed style is
  used when \<open>-4 \<le> X < 15\<close> and the scientific style (exponent of at least two digits)
  otherwise; trailing zeros of the fraction are removed, and the point with them when no
  fraction digit is left.
\<close>

function dec_digits :: "nat \<Rightarrow> string" where
  "dec_digits n = (if n < 10 then [digit_char n] else dec_digits (n div 10) @ [digit_char (n mod 10)])"
  by pat_completeness auto
termination
  by (relation "measure (\<lambda>n. n)") auto

declare dec_digits.simps [simp del]

definition strip_zeros :: "string \<Rightarrow> string" where
  "strip_zeros ds = rev (dropWhile (\<lambda>c. c = CHR ''0'') (rev ds))"

definition frac_part :: "string \<Rightarrow> string" where
  "frac_part ds = (let f = strip_zeros ds in if f = [] then [] else CHR ''.'' # f)"

definition fmt_fixed :: "string \<Rightarrow> int \<Rightarrow> string" where
  "fmt_fixed ds X =
     (if 0 \<le> X then take (nat X + 1) ds @ frac_part (drop (nat X + 1) ds)
      else ''0'' @ frac_part (replicate (nat (- X - 1)) CHR ''0'' @ ds))"

definition fmt_exp :: "string \<Rightarrow> int \<Rightarrow> string" where
  "fmt_exp ds X =
     take 1 ds @ frac_part (drop 1 ds) @ ''e'' @ (if X < 0 then ''-'' else ''+'')
       @ (if \<bar>X\<bar> < 10 then ''0'' else '''') @ dec_digits (nat \<bar>X\<bar>)"

definition fmt_g15 :: "double \<Rightarrow> string" where
  "fmt_g15 d =
     (if sign d then ''-'' else '''') @
     (if expo d = 2047 then (if frac d = 0 then ''inf'' else ''nan'')
      else if significand d = 0 then ''0''
      else
        let e = exponent d;
            num = (if 0 \<le> e then significand d * 2 ^ nat e else significand d);
            den = (if 0 \<le> e then 1 else 2 ^ nat (- e));
            X0 = ilog 10 num den;
            n0 = round_scaled 10 num den (X0 - 14);
            n = (if n0 = 10 ^ 15 then 10 ^ 14 else n0);
            X = (if n0 = 10 ^ 15 then X0 + 1 else X0)
        in if - 4 \<le> X \<and> X < 15 then fmt_fixed (dec_digits n) X else fmt_exp (dec_digits n) X)"

subsection \<open>The value model\<close>

text \<open>
  \<^verbatim>\<open>Json\<close> holds a \<^verbatim>\<open>std::variant<Null, bool, double, std::string, Array, Object>\<close>.
  \<^verbatim>\<open>Array\<close> is a \<^verbatim>\<open>std::vector<Json>\<close>; \<^verbatim>\<open>Object\<close> is a \<^verbatim>\<open>std::map<std::string, Json>\<close>, kept as
  the list of its entries in iteration order. \<^verbatim>\<open>std::string\<close> compares bytes as unsigned
  values, lexicographically, which is the order of \<open>string\<close> here.
\<close>

datatype json =
    Null
  | Boolean bool
  | Number double
  | String string
  | Array "json list"
  | Object "(string \<times> json) list"

abbreviation DQ :: char where "DQ \<equiv> CHR 0x22"
abbreviation BS :: char where "BS \<equiv> CHR 0x5C"
abbreviation SQ :: char where "SQ \<equiv> CHR 0x27"
abbreviation NUL :: char where "NUL \<equiv> CHR 0x00"

fun is_null :: "json \<Rightarrow> bool" where
  "is_null Null = True" | "is_null j = False"

fun is_bool :: "json \<Rightarrow> bool" where
  "is_bool (Boolean b) = True" | "is_bool j = False"

fun is_num :: "json \<Rightarrow> bool" where
  "is_num (Number d) = True" | "is_num j = False"

fun is_str :: "json \<Rightarrow> bool" where
  "is_str (String s) = True" | "is_str j = False"


fun is_object :: "json \<Rightarrow> bool" where
  "is_object (Object obj) = True" | "is_object j = False"

text \<open>The accessors are \<^verbatim>\<open>std::get\<close>, which throws on the wrong alternative.\<close>

fun as_bool :: "json \<Rightarrow> error + bool" where
  "as_bool (Boolean b) = Inr b" | "as_bool j = Inl bad_variant_access"

fun as_num :: "json \<Rightarrow> error + double" where
  "as_num (Number d) = Inr d" | "as_num j = Inl bad_variant_access"

fun as_str :: "json \<Rightarrow> error + string" where
  "as_str (String s) = Inr s" | "as_str j = Inl bad_variant_access"


fun as_object :: "json \<Rightarrow> error + (string \<times> json) list" where
  "as_object (Object obj) = Inr obj" | "as_object j = Inl bad_variant_access"

subsubsection \<open>The operations of \<^verbatim>\<open>std::map\<close> the code uses\<close>

text \<open>
  \<^verbatim>\<open>emplace\<close> inserts the entry at its place in the key order when the key is absent, and
  leaves the map as it is when the key is present.
\<close>

fun map_emplace :: "string \<Rightarrow> json \<Rightarrow> (string \<times> json) list \<Rightarrow> (string \<times> json) list" where
  "map_emplace k v [] = [(k, v)]"
| "map_emplace k v ((k', v') # m) =
     (if k < k' then (k, v) # (k', v') # m
      else if k' < k then (k', v') # map_emplace k v m
      else (k', v') # m)"

text \<open>
  \<^verbatim>\<open>operator[]\<close> inserts a default-constructed \<^verbatim>\<open>Json\<close> (Null) when the key is absent and
  returns a reference to the entry's value: here the map afterwards and the value referred to.
\<close>

fun map_subscript :: "string \<Rightarrow> (string \<times> json) list \<Rightarrow> (string \<times> json) list \<times> json" where
  "map_subscript k [] = ([(k, Null)], Null)"
| "map_subscript k ((k', v') # m) =
     (if k < k' then ((k, Null) # (k', v') # m, Null)
      else if k' < k then (case map_subscript k m of (m', r) \<Rightarrow> ((k', v') # m', r))
      else ((k', v') # m, v'))"

fun map_at :: "string \<Rightarrow> (string \<times> json) list \<Rightarrow> error + json" where
  "map_at k [] = Inl out_of_range"
| "map_at k ((k', v') # m) = (if k = k' then Inr v' else map_at k m)"

fun map_count :: "string \<Rightarrow> (string \<times> json) list \<Rightarrow> nat" where
  "map_count k [] = 0"
| "map_count k ((k', v') # m) = (if k = k' then 1 else map_count k m)"

subsubsection \<open>Object and array conveniences\<close>

definition and_then :: "error + 'a \<Rightarrow> ('a \<Rightarrow> error + 'b) \<Rightarrow> error + 'b" where
  "and_then r f = (case r of Inl e \<Rightarrow> Inl e | Inr x \<Rightarrow> f x)"

text \<open>
  \<^verbatim>\<open>operator[]\<close> and \<^verbatim>\<open>push_back\<close> take their argument by reference to const, and assign to
  \<^verbatim>\<open>v_\<close> before they read it. The object referred to may be the receiver, a part of it, or an
  object that holds it, so what the read gives depends on the value the receiver has at
  that moment, and a part of the payload that the assignment has destroyed cannot be read
  at all. A reference parameter is modelled by that dependence: \<open>x r\<close> is \<open>Some v\<close> when
  reading the parameter while the receiver holds \<open>r\<close> gives \<open>v\<close>, and \<open>None\<close> when the object
  referred to is gone.
\<close>

type_synonym 'a reference = "json \<Rightarrow> 'a option"




text \<open>An element of the receiver's array, as in \<^verbatim>\<open>j.push_back(j.as_array()[i])\<close>.\<close>

definition own_element :: "nat \<Rightarrow> json reference" where
  "own_element i =
     (\<lambda>r. case r of Array a \<Rightarrow> (if i < length a then Some (a ! i) else None) | _ \<Rightarrow> None)"


text \<open>
  \<^verbatim>\<open>at\<close> and \<^verbatim>\<open>contains\<close> are const and destroy nothing: their key is the string it refers to
  at the call.
\<close>

definition at :: "json \<Rightarrow> string \<Rightarrow> error + json" where
  "at j key = and_then (as_object j) (map_at key)"

definition contains :: "json \<Rightarrow> string \<Rightarrow> bool" where
  "contains j key =
     (if \<not> is_object j then False
      else (case j of Object obj \<Rightarrow> map_count key obj \<noteq> 0 | _ \<Rightarrow> False))"


subsection \<open>Serialization\<close>

definition hex :: string where
  "hex = ''0123456789ABCDEF''"

definition escape_char :: "char \<Rightarrow> string" where
  "escape_char c =
     (if c = DQ then [BS, DQ]
      else if c = BS then [BS, BS]
      else if c = CHR 0x08 then [BS, CHR ''b'']
      else if c = CHR 0x0C then [BS, CHR ''f'']
      else if c = CHR 0x0A then [BS, CHR ''n'']
      else if c = CHR 0x0D then [BS, CHR ''r'']
      else if c = CHR 0x09 then [BS, CHR ''t'']
      else if c < CHR 0x20 then
        [BS, CHR ''u'', CHR ''0'', CHR ''0'',
         hex ! ((of_char c div 16) mod 16), hex ! (of_char c mod 16)]
      else [c])"

fun escape :: "string \<Rightarrow> string" where
  "escape [] = []"
| "escape (c # s) = escape_char c @ escape s"

text \<open>The lambda \<^verbatim>\<open>ind\<close> of \<^verbatim>\<open>dump_impl\<close>: \<open>d * indent\<close> spaces in pretty mode.\<close>

definition ind :: "int \<Rightarrow> string \<Rightarrow> int \<Rightarrow> string" where
  "ind indent out d = (if 0 \<le> indent then out @ replicate (nat (d * indent)) CHR '' '' else out)"

text \<open>
  \<^verbatim>\<open>dump_impl\<close> appends to \<^verbatim>\<open>out\<close>, which is passed and returned. \<open>dump_array\<close> and
  \<open>dump_object\<close> are its two loops, over the elements and entries not yet written: the
  comma is written when more follow (\<^verbatim>\<open>i + 1 < a.size()\<close>, \<^verbatim>\<open>++i < o.size()\<close>).
\<close>

fun dump_impl :: "json \<Rightarrow> string \<Rightarrow> int \<Rightarrow> int \<Rightarrow> string"
  and dump_array :: "json list \<Rightarrow> string \<Rightarrow> int \<Rightarrow> int \<Rightarrow> string"
  and dump_object :: "(string \<times> json) list \<Rightarrow> string \<Rightarrow> int \<Rightarrow> int \<Rightarrow> string" where
  "dump_impl Null out indent depth = out @ ''null''"
| "dump_impl (Boolean b) out indent depth = out @ (if b then ''true'' else ''false'')"
| "dump_impl (Number d) out indent depth = out @ fmt_g15 d"
| "dump_impl (String s) out indent depth = out @ [DQ] @ escape s @ [DQ]"
| "dump_impl (Array a) out indent depth =
     (let out1 = out @ ''[''
      in if a \<noteq> [] then
           (let out2 = (if 0 \<le> indent then out1 @ [CHR 0x0A] else out1);
                out3 = dump_array a out2 indent depth;
                out4 = ind indent out3 depth
            in out4 @ '']'')
         else out1 @ '']'')"
| "dump_impl (Object obj) out indent depth =
     (let out1 = out @ ''{''
      in if obj \<noteq> [] then
           (let out2 = (if 0 \<le> indent then out1 @ [CHR 0x0A] else out1);
                out3 = dump_object obj out2 indent depth;
                out4 = ind indent out3 depth
            in out4 @ ''}'')
         else out1 @ ''}'')"
| "dump_array [] out indent depth = out"
| "dump_array (x # xs) out indent depth =
     (let out1 = ind indent out (depth + 1);
          out2 = dump_impl x out1 indent (depth + 1);
          out3 = (if xs \<noteq> [] then out2 @ '','' else out2);
          out4 = (if 0 \<le> indent then out3 @ [CHR 0x0A] else out3)
      in dump_array xs out4 indent depth)"
| "dump_object [] out indent depth = out"
| "dump_object (kv # kvs) out indent depth =
     (let out1 = ind indent out (depth + 1);
          out2 = out1 @ [DQ] @ escape (fst kv) @ [DQ] @ '':'';
          out3 = (if 0 \<le> indent then out2 @ '' '' else out2);
          out4 = dump_impl (snd kv) out3 indent (depth + 1);
          out5 = (if kvs \<noteq> [] then out4 @ '','' else out4);
          out6 = (if 0 \<le> indent then out5 @ [CHR 0x0A] else out5)
      in dump_object kvs out6 indent depth)"

text \<open>\<^verbatim>\<open>dump(indent)\<close>; the default \<open>indent = -1\<close> is the compact mode.\<close>

definition dump :: "json \<Rightarrow> int \<Rightarrow> string" where
  "dump j indent = dump_impl j [] indent 0"

subsection \<open>The parser\<close>

definition eof :: "string \<Rightarrow> bool" where
  "eof s = (s = [])"

definition peek :: "string \<Rightarrow> char" where
  "peek s = (if eof s then NUL else hd s)"

definition get :: "string \<Rightarrow> char \<times> string" where
  "get s = (if eof s then (NUL, s) else (hd s, tl s))"

function skip_ws :: "string \<Rightarrow> string" where
  "skip_ws s = (if \<not> eof s \<and> isspace (peek s) then skip_ws (tl s) else s)"
  by pat_completeness auto
termination
  by (relation "measure length") (auto simp: eof_def)

declare skip_ws.simps [simp del]

definition expect :: "char \<Rightarrow> string \<Rightarrow> error + string" where
  "expect c s =
     (case get s of (c', s') \<Rightarrow>
        if c' \<noteq> c then Inl (runtime_error (''JSON: expected '' @ [SQ] @ [c] @ [SQ]))
        else Inr s')"

definition parse_null :: "string \<Rightarrow> error + (json \<times> string)" where
  "parse_null s =
     and_then (expect CHR ''n'' s) (\<lambda>s.
     and_then (expect CHR ''u'' s) (\<lambda>s.
     and_then (expect CHR ''l'' s) (\<lambda>s.
     and_then (expect CHR ''l'' s) (\<lambda>s. Inr (Null, s)))))"

definition parse_bool :: "string \<Rightarrow> error + (json \<times> string)" where
  "parse_bool s =
     (if peek s = CHR ''t'' then
        and_then (expect CHR ''t'' s) (\<lambda>s.
        and_then (expect CHR ''r'' s) (\<lambda>s.
        and_then (expect CHR ''u'' s) (\<lambda>s.
        and_then (expect CHR ''e'' s) (\<lambda>s. Inr (Boolean True, s)))))
      else
        and_then (expect CHR ''f'' s) (\<lambda>s.
        and_then (expect CHR ''a'' s) (\<lambda>s.
        and_then (expect CHR ''l'' s) (\<lambda>s.
        and_then (expect CHR ''s'' s) (\<lambda>s.
        and_then (expect CHR ''e'' s) (\<lambda>s. Inr (Boolean False, s)))))))"

text \<open>\<^verbatim>\<open>while (std::isdigit((unsigned char)peek())) ++i;\<close>\<close>

function skip_digits :: "string \<Rightarrow> string" where
  "skip_digits s = (if isdigit (peek s) then skip_digits (tl s) else s)"
  by pat_completeness auto
termination
  by (relation "measure length") (auto simp: peek_def eof_def isdigit_def split: if_splits)

declare skip_digits.simps [simp del]

definition bad_number :: error where
  "bad_number = runtime_error ''JSON: bad number''"

definition parse_number :: "string \<Rightarrow> error + (json \<times> string)" where
  "parse_number s =
     (let s1 = (if peek s = CHR ''-'' then tl s else s)
      in if peek s1 \<noteq> CHR ''0'' \<and> \<not> isdigit (peek s1) then Inl bad_number
         else
           let s2 = (if peek s1 = CHR ''0'' then tl s1 else skip_digits s1)
           in if peek s2 = CHR ''.'' \<and> \<not> isdigit (peek (tl s2)) then Inl bad_number
              else
                let s3 = (if peek s2 = CHR ''.'' then skip_digits (tl s2) else s2);
                    has_exp = (peek s3 = CHR ''e'' \<or> peek s3 = CHR ''E'');
                    s4 = (if has_exp then tl s3 else s3);
                    s5 = (if has_exp \<and> (peek s4 = CHR ''+'' \<or> peek s4 = CHR ''-'') then tl s4 else s4)
                in if has_exp \<and> \<not> isdigit (peek s5) then Inl bad_number
                   else
                     let s6 = (if has_exp then skip_digits s5 else s3)
                     in and_then (stod (take (length s - length s6) s))
                          (\<lambda>d. Inr (Number d, s6)))"

function parse_string_loop :: "string \<Rightarrow> string \<Rightarrow> error + (string \<times> string)" where
  "parse_string_loop out s =
     (if eof s then Inr (out, s)
      else
        case get s of (c, s1) \<Rightarrow>
          if c = DQ then Inr (out, s1)
          else if c = BS then
            (case get s1 of (e, s2) \<Rightarrow>
               if e = DQ then parse_string_loop (out @ [DQ]) s2
               else if e = BS then parse_string_loop (out @ [BS]) s2
               else if e = CHR ''/'' then parse_string_loop (out @ ''/'') s2
               else if e = CHR ''b'' then parse_string_loop (out @ [CHR 0x08]) s2
               else if e = CHR ''f'' then parse_string_loop (out @ [CHR 0x0C]) s2
               else if e = CHR ''n'' then parse_string_loop (out @ [CHR 0x0A]) s2
               else if e = CHR ''r'' then parse_string_loop (out @ [CHR 0x0D]) s2
               else if e = CHR ''t'' then parse_string_loop (out @ [CHR 0x09]) s2
               else if e = CHR ''u'' then
                 (case get s2 of (h1, s3) \<Rightarrow>
                  case get s3 of (h2, s4) \<Rightarrow>
                  case get s4 of (h3, s5) \<Rightarrow>
                  case get s5 of (h4, s6) \<Rightarrow>
                    parse_string_loop (out @ [BS, CHR ''u''] @ [h1] @ [h2] @ [h3] @ [h4]) s6)
               else Inl (runtime_error ''JSON: bad escape''))
          else parse_string_loop (out @ [c]) s1)"
  by pat_completeness auto
termination
  by (relation "measure (\<lambda>(out, s). length s)") (auto simp: get_def eof_def split: if_splits)

declare parse_string_loop.simps [simp del]

definition parse_string :: "string \<Rightarrow> error + (json \<times> string)" where
  "parse_string s =
     and_then (expect DQ s) (\<lambda>s1.
     and_then (parse_string_loop [] s1) (\<lambda>(out, s2). Inr (String out, s2)))"

function parse_value :: "string \<Rightarrow> error + (json \<times> string)"
  and parse_array :: "string \<Rightarrow> error + (json \<times> string)"
  and parse_array_loop :: "json list \<Rightarrow> string \<Rightarrow> error + (json \<times> string)"
  and parse_object :: "string \<Rightarrow> error + (json \<times> string)"
  and parse_object_loop :: "(string \<times> json) list \<Rightarrow> string \<Rightarrow> error + (json \<times> string)" where
  "parse_value s0 =
     (let s = skip_ws s0; c = peek s
      in if c = CHR ''n'' then parse_null s
         else if c = CHR ''t'' \<or> c = CHR ''f'' then parse_bool s
         else if c = DQ then parse_string s
         else if c = CHR ''-'' \<or> isdigit c then parse_number s
         else if c = CHR ''{'' then parse_object s
         else if c = CHR ''['' then parse_array s
         else Inl (runtime_error ''JSON: unexpected token''))"
| "parse_array s =
     (case expect CHR ''['' s of
        Inl e \<Rightarrow> Inl e
      | Inr s1 \<Rightarrow>
          let s2 = skip_ws s1
          in if peek s2 = CHR '']'' then Inr (Array [], snd (get s2))
             else parse_array_loop [] s2)"
| "parse_array_loop arr s =
     (case parse_value s of
        Inl e \<Rightarrow> Inl e
      | Inr (v, s1) \<Rightarrow>
          (case get (skip_ws s1) of (c, s2) \<Rightarrow>
             if c = CHR '']'' then Inr (Array (arr @ [v]), s2)
             else if c \<noteq> CHR '','' then
               Inl (runtime_error (''JSON: expected '' @ [SQ] @ '','' @ [SQ] @ '' or '' @ [SQ] @ '']'' @ [SQ]))
             else parse_array_loop (arr @ [v]) (skip_ws s2)))"
| "parse_object s =
     (case expect CHR ''{'' s of
        Inl e \<Rightarrow> Inl e
      | Inr s1 \<Rightarrow>
          let s2 = skip_ws s1
          in if peek s2 = CHR ''}'' then Inr (Object [], snd (get s2))
             else parse_object_loop [] s2)"
| "parse_object_loop obj s0 =
     (let s = skip_ws s0
      in if peek s \<noteq> DQ then Inl (runtime_error ''JSON: expected string key'')
         else
           case and_then (parse_string s) (\<lambda>(k, s1). and_then (as_str k) (\<lambda>key. Inr (key, s1))) of
             Inl e \<Rightarrow> Inl e
           | Inr (key, s1) \<Rightarrow>
               (case expect CHR '':'' (skip_ws s1) of
                  Inl e \<Rightarrow> Inl e
                | Inr s2 \<Rightarrow>
                    (case parse_value s2 of
                       Inl e \<Rightarrow> Inl e
                     | Inr (val, s3) \<Rightarrow>
                         let obj1 = map_emplace key val obj
                         in case get (skip_ws s3) of (c, s4) \<Rightarrow>
                              if c = CHR ''}'' then Inr (Object obj1, s4)
                              else if c \<noteq> CHR '','' then
                                Inl (runtime_error (''JSON: expected '' @ [SQ] @ '','' @ [SQ] @ '' or '' @ [SQ] @ ''}'' @ [SQ]))
                              else parse_object_loop obj1 (skip_ws s4))))"
  by pat_completeness auto


lemma skip_ws_length: "length (skip_ws s) \<le> length s"
proof (induction s rule: skip_ws.induct)
  case (1 s)
  then show ?case
    by (subst skip_ws.simps) (auto simp: eof_def le_SucI)
qed

lemma skip_digits_length: "length (skip_digits s) \<le> length s"
proof (induction s rule: skip_digits.induct)
  case (1 s)
  then show ?case
    by (subst skip_digits.simps) (auto simp: le_SucI)
qed

lemma get_length: "get s = (c, r) \<Longrightarrow> length r \<le> length s"
  by (auto simp: get_def split: if_splits)

lemma get_length_less: "get s = (c, r) \<Longrightarrow> c \<noteq> NUL \<Longrightarrow> length r < length s"
  by (auto simp: get_def eof_def split: if_splits)

lemma expect_length: "expect c s = Inr r \<Longrightarrow> length r \<le> length s"
  by (auto simp: expect_def get_def split: if_splits)

lemma expect_length_less: "expect c s = Inr r \<Longrightarrow> c \<noteq> NUL \<Longrightarrow> length r < length s"
  by (auto simp: expect_def get_def eof_def split: if_splits)

lemma and_then_Inr: "and_then r f = Inr y \<longleftrightarrow> (\<exists>x. r = Inr x \<and> f x = Inr y)"
  by (cases r) (auto simp: and_then_def)

lemma expect_Inr: "c \<noteq> NUL \<Longrightarrow> expect c s = Inr r \<longleftrightarrow> s = c # r"
  by (cases s) (auto simp: expect_def get_def eof_def)

lemma parse_null_Inr: "parse_null s = Inr (v, r) \<longleftrightarrow> s = ''null'' @ r \<and> v = Null"
  by (auto simp: parse_null_def and_then_Inr expect_Inr)

lemma parse_bool_Inr:
  "parse_bool s = Inr (v, r) \<longleftrightarrow>
     s = ''true'' @ r \<and> v = Boolean True \<or> s = ''false'' @ r \<and> v = Boolean False"
  by (auto simp: parse_bool_def and_then_Inr expect_Inr peek_def eof_def)

lemma get_Cons [simp]: "get (c # s) = (c, s)"
  by (simp add: get_def eof_def)

lemma get_Nil [simp]: "get [] = (NUL, [])"
  by (simp add: get_def eof_def)

lemma peek_Cons [simp]: "peek (c # s) = c"
  by (simp add: peek_def eof_def)

lemma peek_Nil [simp]: "peek [] = NUL"
  by (simp add: peek_def eof_def)

lemma parse_string_loop_Nil [simp]: "parse_string_loop out [] = Inr (out, [])"
  by (subst parse_string_loop.simps) (simp add: eof_def)

lemma parse_string_loop_DQ [simp]: "parse_string_loop out (DQ # s) = Inr (out, s)"
  by (subst parse_string_loop.simps) (simp add: eof_def)

lemma parse_string_loop_plain:
  "c \<noteq> DQ \<Longrightarrow> c \<noteq> BS \<Longrightarrow> parse_string_loop out (c # s) = parse_string_loop (out @ [c]) s"
  by (subst parse_string_loop.simps) (simp add: eof_def)

lemma parse_string_loop_escape:
  "parse_string_loop out (BS # s) =
     (case get s of (e, s2) \<Rightarrow>
        if e = DQ then parse_string_loop (out @ [DQ]) s2
        else if e = BS then parse_string_loop (out @ [BS]) s2
        else if e = CHR ''/'' then parse_string_loop (out @ ''/'') s2
        else if e = CHR ''b'' then parse_string_loop (out @ [CHR 0x08]) s2
        else if e = CHR ''f'' then parse_string_loop (out @ [CHR 0x0C]) s2
        else if e = CHR ''n'' then parse_string_loop (out @ [CHR 0x0A]) s2
        else if e = CHR ''r'' then parse_string_loop (out @ [CHR 0x0D]) s2
        else if e = CHR ''t'' then parse_string_loop (out @ [CHR 0x09]) s2
        else if e = CHR ''u'' then
          (case get s2 of (h1, s3) \<Rightarrow>
           case get s3 of (h2, s4) \<Rightarrow>
           case get s4 of (h3, s5) \<Rightarrow>
           case get s5 of (h4, s6) \<Rightarrow>
             parse_string_loop (out @ [BS, CHR ''u''] @ [h1] @ [h2] @ [h3] @ [h4]) s6)
        else Inl (runtime_error ''JSON: bad escape''))"
  by (subst parse_string_loop.simps) (simp add: eof_def)

lemma parse_string_loop_length: "parse_string_loop out s = Inr (t, r) \<Longrightarrow> length r \<le> length s"
proof (induction "length s" arbitrary: s out rule: less_induct)
  case less
  have IH: "length r \<le> length s" if "parse_string_loop out' s' = Inr (t, r)" "length s' < length s"
    for out' s'
    using less.hyps[OF that(2) that(1)] that(2) by simp
  show ?case
  proof (cases s)
    case Nil
    with less.prems show ?thesis by simp
  next
    case (Cons c s1)
    show ?thesis
    proof (cases "c = BS")
      case False
      with less.prems Cons IH[of "out @ [c]" s1] show ?thesis
        by (cases "c = DQ") (auto simp: parse_string_loop_plain)
    next
      case True
      obtain e s2 where g2: "get s1 = (e, s2)" by (cases "get s1")
      obtain h1 s3 where g3: "get s2 = (h1, s3)" by (cases "get s2")
      obtain h2 s4 where g4: "get s3 = (h2, s4)" by (cases "get s3")
      obtain h3 s5 where g5: "get s4 = (h3, s5)" by (cases "get s4")
      obtain h4 s6 where g6: "get s5 = (h4, s6)" by (cases "get s5")
      have l2: "length s2 < length s" using get_length[OF g2] Cons by simp
      have l6: "length s6 < length s"
        using get_length[OF g3] get_length[OF g4] get_length[OF g5] get_length[OF g6] l2 by simp
      have "\<exists>out' s'. parse_string_loop out' s' = Inr (t, r) \<and> length s' < length s"
        using less.prems l2 l6
        by (auto simp: Cons True parse_string_loop_escape g2 g3 g4 g5 g6 split: if_splits)
      then show ?thesis using IH by blast
    qed
  qed
qed

lemma parse_string_length: "parse_string s = Inr (v, r) \<Longrightarrow> length r < length s"
  by (auto simp: parse_string_def and_then_Inr expect_Inr dest!: parse_string_loop_length)

lemma tl_length_le: "length s \<le> n \<Longrightarrow> length (tl s) \<le> n"
  by simp

lemma skip_digits_length_le: "length s \<le> n \<Longrightarrow> length (skip_digits s) \<le> n"
  using skip_digits_length[of s] by simp

lemma parse_number_length: "parse_number s = Inr (v, r) \<Longrightarrow> length r \<le> length s"
  by (auto simp: parse_number_def Let_def and_then_Inr split: if_splits
           intro!: tl_length_le skip_digits_length_le)


lemma skip_ws_length_le: "length s \<le> n \<Longrightarrow> length (skip_ws s) \<le> n"
  using skip_ws_length[of s] by simp

lemma get_length_le: "get s = (c, r) \<Longrightarrow> length s \<le> n \<Longrightarrow> length r \<le> n"
  using get_length[of s c r] by simp

lemma parse_length_partial:
  "parse_value_parse_array_parse_array_loop_parse_object_parse_object_loop_dom (Inl (Inl s0)) \<Longrightarrow>
     (\<forall>v r. parse_value s0 = Inr (v, r) \<longrightarrow> length r \<le> length s0)"
  "parse_value_parse_array_parse_array_loop_parse_object_parse_object_loop_dom (Inl (Inr s)) \<Longrightarrow>
     (\<forall>v r. parse_array s = Inr (v, r) \<longrightarrow> length r \<le> length s)"
  "parse_value_parse_array_parse_array_loop_parse_object_parse_object_loop_dom (Inr (Inl (arr, s))) \<Longrightarrow>
     (\<forall>v r. parse_array_loop arr s = Inr (v, r) \<longrightarrow> length r \<le> length s)"
  "parse_value_parse_array_parse_array_loop_parse_object_parse_object_loop_dom (Inr (Inr (Inl s))) \<Longrightarrow>
     (\<forall>v r. parse_object s = Inr (v, r) \<longrightarrow> length r \<le> length s)"
  "parse_value_parse_array_parse_array_loop_parse_object_parse_object_loop_dom (Inr (Inr (Inr (obj, s)))) \<Longrightarrow>
     (\<forall>v r. parse_object_loop obj s = Inr (v, r) \<longrightarrow> length r \<le> length s)"
proof (induct rule: parse_value_parse_array_parse_array_loop_parse_object_parse_object_loop.pinduct)
  case (1 s0)
  let ?s = "skip_ws s0"
  have le: "length ?s \<le> length s0" by (rule skip_ws_length)
  have obj: "length r \<le> length ?s" if "peek ?s = CHR ''{''" "parse_object ?s = Inr (v, r)" for v r
    using 1(2)[OF refl refl] that by (simp add: isdigit_def)
  have arr: "length r \<le> length ?s" if "peek ?s = CHR ''[''" "parse_array ?s = Inr (v, r)" for v r
    using 1(3)[OF refl refl] that by (simp add: isdigit_def)
  show ?case
  proof (intro allI impI)
    fix v r
    assume "parse_value s0 = Inr (v, r)"
    then have "length r \<le> length ?s"
      unfolding parse_value.psimps[OF 1(1)] Let_def
      by (auto split: if_splits simp: parse_null_Inr parse_bool_Inr
            dest: parse_string_length parse_number_length obj arr)
    with le show "length r \<le> length s0" by simp
  qed
next
  case (2 s)
  show ?case
  proof (intro allI impI)
    fix v r
    assume *: "parse_array s = Inr (v, r)"
    then obtain s1 where s1: "expect CHR ''['' s = Inr s1"
      unfolding parse_array.psimps[OF 2(1)] by (auto split: sum.splits)
    then have s: "s = CHR ''['' # s1" by (simp add: expect_Inr)
    let ?s2 = "skip_ws s1"
    have le: "length ?s2 \<le> length s" using skip_ws_length[of s1] s by simp
    show "length r \<le> length s"
    proof (cases "peek ?s2 = CHR '']''")
      case True
      with * s1 have "r = snd (get ?s2)"
        unfolding parse_array.psimps[OF 2(1)] by (simp add: Let_def)
      then have "length r \<le> length ?s2" by (auto simp: get_def)
      with le show ?thesis by simp
    next
      case False
      with * s1 have "parse_array_loop [] ?s2 = Inr (v, r)"
        unfolding parse_array.psimps[OF 2(1)] by (simp add: Let_def)
      with 2(2)[OF s1 refl False] have "length r \<le> length ?s2" by simp
      with le show ?thesis by simp
    qed
  qed
next
  case (3 arr s)
  show ?case
  proof (intro allI impI)
    fix v r
    assume *: "parse_array_loop arr s = Inr (v, r)"
    then obtain x y where pv: "parse_value s = Inr (x, y)"
      unfolding parse_array_loop.psimps[OF 3(1)] by (auto split: sum.splits)
    obtain c s2 where g: "get (skip_ws y) = (c, s2)" by (cases "get (skip_ws y)")
    have ley: "length y \<le> length s" using 3(2) pv by simp
    have le2: "length s2 \<le> length s"
      using get_length[OF g] skip_ws_length[of y] ley by simp
    show "length r \<le> length s"
    proof (cases "c = CHR '']''")
      case True
      with * pv g have "r = s2"
        unfolding parse_array_loop.psimps[OF 3(1)] by simp
      with le2 show ?thesis by simp
    next
      case False
      with * pv g have c: "c = CHR '',''" and **: "parse_array_loop (arr @ [x]) (skip_ws s2) = Inr (v, r)"
        unfolding parse_array_loop.psimps[OF 3(1)] by (auto split: if_splits)
      have "length r \<le> length (skip_ws s2)"
        using 3(3)[OF pv refl g[symmetric] False] c ** by simp
      with le2 skip_ws_length[of s2] show ?thesis by simp
    qed
  qed
next
  case (4 s)
  show ?case
  proof (intro allI impI)
    fix v r
    assume *: "parse_object s = Inr (v, r)"
    then obtain s1 where s1: "expect CHR ''{'' s = Inr s1"
      unfolding parse_object.psimps[OF 4(1)] by (auto split: sum.splits)
    then have s: "s = CHR ''{'' # s1" by (simp add: expect_Inr)
    let ?s2 = "skip_ws s1"
    have le: "length ?s2 \<le> length s" using skip_ws_length[of s1] s by simp
    show "length r \<le> length s"
    proof (cases "peek ?s2 = CHR ''}''")
      case True
      with * s1 have "r = snd (get ?s2)"
        unfolding parse_object.psimps[OF 4(1)] by (simp add: Let_def)
      then have "length r \<le> length ?s2" by (auto simp: get_def)
      with le show ?thesis by simp
    next
      case False
      with * s1 have "parse_object_loop [] ?s2 = Inr (v, r)"
        unfolding parse_object.psimps[OF 4(1)] by (simp add: Let_def)
      with 4(2)[OF s1 refl False] have "length r \<le> length ?s2" by simp
      with le show ?thesis by simp
    qed
  qed
next
  case (5 obj s0)
  let ?s = "skip_ws s0"
  let ?k = "and_then (parse_string ?s) (\<lambda>(k, s1). and_then (as_str k) (\<lambda>key. Inr (key, s1)))"
  show ?case
  proof (intro allI impI)
    fix v r
    assume *: "parse_object_loop obj s0 = Inr (v, r)"
    note ps = parse_object_loop.psimps[OF 5(1)]
    from * have pk: "\<not> peek ?s \<noteq> DQ"
      unfolding ps Let_def by (auto split: if_splits)
    with * obtain key s1 where k: "?k = Inr (key, s1)"
      unfolding ps Let_def by (auto split: sum.splits)
    with * pk obtain s2 where e: "expect CHR '':'' (skip_ws s1) = Inr s2"
      unfolding ps Let_def by (auto split: sum.splits)
    with * pk k obtain val s3 where pv: "parse_value s2 = Inr (val, s3)"
      unfolding ps Let_def by (auto split: sum.splits)
    obtain c s4 where g: "get (skip_ws s3) = (c, s4)" by (cases "get (skip_ws s3)")
    from k have "length s1 \<le> length ?s"
      by (auto simp: and_then_Inr dest: parse_string_length)
    then have l1: "length s1 \<le> length s0" using skip_ws_length[of s0] by simp
    from e have "length s2 \<le> length (skip_ws s1)" by (simp add: expect_Inr)
    then have l2: "length s2 \<le> length s0" using skip_ws_length[of s1] l1 by simp
    have l3: "length s3 \<le> length s0"
      using 5(2)[OF refl pk k refl e] pv l2 by fastforce
    have l4: "length s4 \<le> length s0"
      using get_length[OF g] skip_ws_length[of s3] l3 by simp
    show "length r \<le> length s0"
    proof (cases "c = CHR ''}''")
      case True
      with * pk k e pv g have "r = s4"
        unfolding ps Let_def by simp
      with l4 show ?thesis by simp
    next
      case False
      with * pk k e pv g have c: "\<not> c \<noteq> CHR '',''"
        and **: "parse_object_loop (map_emplace key val obj) (skip_ws s4) = Inr (v, r)"
        unfolding ps Let_def by (auto split: if_splits)
      have "length r \<le> length (skip_ws s4)"
        using 5(3)[OF refl pk k refl e pv refl refl g[symmetric] False c] ** by simp
      with l4 skip_ws_length[of s4] show ?thesis by simp
    qed
  qed
qed


termination parse_value
proof (relation "measure (\<lambda>x. case x of
          Inl (Inl s) \<Rightarrow> 4 * length s + 2
        | Inl (Inr s) \<Rightarrow> 4 * length s + 1
        | Inr (Inl (arr, s)) \<Rightarrow> 4 * length s + 3
        | Inr (Inr (Inl s)) \<Rightarrow> 4 * length s + 1
        | Inr (Inr (Inr (obj, s))) \<Rightarrow> 4 * length s + 3)", goal_cases)
  case 1
  show ?case by simp
next
  case (2 s0 x xa)
  then show ?case using skip_ws_length[of s0] by simp
next
  case (3 s0 x xa)
  then show ?case using skip_ws_length[of s0] by simp
next
  case (4 s b x)
  then show ?case using skip_ws_length[of b] by (simp add: expect_Inr)
next
  case (5 arr s)
  then show ?case by simp
next
  case (6 arr s b x y xa ya)
  then show ?case 
    using parse_length_partial(1)[of s] skip_ws_length[of y] skip_ws_length[of ya] get_length_less[of "skip_ws y" xa ya]
    by auto
next
  case (7 s b x)
  then show ?case using skip_ws_length[of b] by (simp add: expect_Inr)
next
  case (8 obj s0 x b xa y ba)
  then show ?case 
    using skip_ws_length[of s0] skip_ws_length[of y]
    by (auto simp: and_then_Inr expect_Inr dest!: parse_string_length)
next
  case (9 obj s0 x b xa y ba bb xb ya xc xd yb)
  then show ?case
    using parse_length_partial(1)[of ba] skip_ws_length[of s0] skip_ws_length[of y] skip_ws_length[of ya]
      skip_ws_length[of yb] get_length_less[of "skip_ws ya" xd yb]
    by (auto simp: and_then_Inr expect_Inr dest!: parse_string_length)
qed

declare parse_value.simps [simp del] parse_array.simps [simp del] parse_array_loop.simps [simp del]
  parse_object.simps [simp del] parse_object_loop.simps [simp del]

definition parse :: "string \<Rightarrow> error + json" where
  "parse s =
     (case parse_value s of
        Inl e \<Rightarrow> Inl e
      | Inr (j, s1) \<Rightarrow>
          if \<not> eof (skip_ws s1) then Inl (runtime_error ''JSON: trailing characters'')
          else Inr j)"


section \<open>Properties\<close>

subsection \<open>Evaluation on concrete inputs\<close>

lemmas number_eval =
  isdigit_def isspace_def digit_val_def digit_char_def significand_def exponent_def ilog_def
  ndigits.simps round_half_even_def round_scaled_def exact_scaled_def digits_val_def
  to_double_def underflows_def strtod_round_def strtod_exponent_def stod_def dec_digits.simps strip_zeros_def frac_part_def
  fmt_fixed_def fmt_exp_def fmt_g15_def Let_def

lemmas parser_eval =
  parse_def parse_value.simps parse_array.simps parse_array_loop.simps parse_object.simps
  parse_object_loop.simps skip_ws.simps skip_digits.simps parse_string_loop_plain
  parse_string_loop_escape expect_def eof_def parse_null_def parse_bool_def parse_number_def
  parse_string_def and_then_def bad_number_def

lemmas dump_eval = dump_def ind_def escape_char_def hex_def

subsection \<open>Rejected inputs\<close>









subsection \<open>Unterminated strings\<close>

text \<open>
  C4. On the input \<^verbatim>\<open>"abc\<close>, a string literal that the end of the input cuts short,
  \<open>parse\<close> returns the string value \<open>abc\<close>: the loop of \<open>parse_string\<close> ends at the end of
  the input as it does at the closing quote, and nothing is thrown.
\<close>

theorem unterminated_string_accepted:
  "parse (DQ # ''abc'') = Inr (String ''abc'')"
  by (simp add: parser_eval number_eval)

subsection \<open>Unicode escapes\<close>

lemma parse_unicode_escape:
  "parse ([DQ, BS] @ ''u00e9'' @ [DQ]) = Inr (String (BS # ''u00e9''))"
  by (simp add: parser_eval number_eval)

lemma dump_unicode_escape:
  "dump (String (BS # ''u00e9'')) (- 1) = [DQ, BS, BS] @ ''u00e9'' @ [DQ]"
  by (simp add: dump_eval)

lemma parse_dumped_unicode_escape:
  "parse ([DQ, BS, BS] @ ''u00e9'' @ [DQ]) = Inr (String (BS # ''u00e9''))"
  by (simp add: parser_eval number_eval)

text \<open>
  C2, as the spec states it, fails: the text \<^verbatim>\<open>"\u00e9"\<close> parses to the six characters
  backslash, u, 0, 0, e, 9, but dumping that value does not give the text back.
\<close>

theorem unicode_escape_dump_not_verbatim:
  "parse ([DQ, BS] @ ''u00e9'' @ [DQ]) = Inr (String (BS # ''u00e9'')) \<and>
   dump (String (BS # ''u00e9'')) (- 1) \<noteq> [DQ, BS] @ ''u00e9'' @ [DQ]"
  using parse_unicode_escape dump_unicode_escape by simp

text \<open>
  C2, amended. The text \<^verbatim>\<open>"\u00e9"\<close> parses to the six characters backslash, u, 0, 0, e, 9;
  \<open>escape\<close> doubles the backslash, so dumping that value gives the text \<^verbatim>\<open>"\\u00e9"\<close>, which
  parses to the same six characters again.
\<close>

theorem unicode_escape_passthrough:
  "parse ([DQ, BS] @ ''u00e9'' @ [DQ]) = Inr (String (BS # ''u00e9'')) \<and>
   dump (String (BS # ''u00e9'')) (- 1) = [DQ, BS, BS] @ ''u00e9'' @ [DQ] \<and>
   parse ([DQ, BS, BS] @ ''u00e9'' @ [DQ]) = Inr (String (BS # ''u00e9''))"
  using parse_unicode_escape dump_unicode_escape parse_dumped_unicode_escape by (intro conjI)


subsection \<open>White space and dispatch\<close>

lemma skip_ws_Nil [simp]: "skip_ws [] = []"
  by (subst skip_ws.simps) (simp add: eof_def)

lemma skip_ws_Cons: "skip_ws (c # s) = (if isspace c then skip_ws s else c # s)"
  by (subst skip_ws.simps) (simp add: eof_def)


definition value_start :: "char \<Rightarrow> bool" where
  "value_start c = (c \<in> set (''ntf'' @ [DQ] @ ''-0123456789{['') )"



lemma not_isspace_value_start: "value_start c \<Longrightarrow> \<not> isspace c"
  by (auto simp: value_start_def isspace_def)








subsection \<open>Keyed access and append on a value of another variant\<close>






subsection \<open>The map of an object\<close>

text \<open>
  The entries of a \<^verbatim>\<open>std::map\<close> are in strictly ascending key order; \<open>key_ordered\<close> says so of
  the list that models it.
\<close>

definition key_ordered :: "(string \<times> json) list \<Rightarrow> bool" where
  "key_ordered m = sorted_wrt (<) (map fst m)"

lemma key_ordered_Nil [simp]: "key_ordered []"
  by (simp add: key_ordered_def)

lemma key_ordered_Cons:
  "key_ordered (kv # m) \<longleftrightarrow> (\<forall>x \<in> set m. fst kv < fst x) \<and> key_ordered m"
  by (auto simp: key_ordered_def)

lemma keys_map_emplace: "x \<in> set (map_emplace k v m) \<Longrightarrow> x = (k, v) \<or> x \<in> set m"
  by (induction m) (auto split: if_splits)

lemma map_emplace_ordered: "key_ordered m \<Longrightarrow> key_ordered (map_emplace k v m)"
proof (induction m)
  case Nil
  then show ?case by (simp add: key_ordered_def)
next
  case (Cons kv m)
  obtain k' v' where kv: "kv = (k', v')" by (cases kv)
  have above: "k' < fst x" if "x \<in> set m" for x
    using Cons.prems that by (simp add: key_ordered_Cons kv)
  have m: "key_ordered m"
    using Cons.prems by (simp add: key_ordered_Cons)
  consider "k < k'" | "k' < k" | "k = k'" by fastforce
  then show ?case
  proof cases
    case 1
    then have "k < fst x" if "x \<in> set m" for x
      using above[OF that] by simp
    with 1 Cons.prems show ?thesis by (simp add: key_ordered_Cons kv)
  next
    case 2
    have "k' < fst x" if "x \<in> set (map_emplace k v m)" for x
    proof -
      from keys_map_emplace[OF that] have "x = (k, v) \<or> x \<in> set m" .
      then show ?thesis
      proof
        assume "x = (k, v)" with 2 show ?thesis by simp
      next
        assume "x \<in> set m" then show ?thesis by (rule above)
      qed
    qed
    moreover from 2 have "\<not> k < k'" by (simp add: not_less less_imp_le)
    ultimately show ?thesis using 2 Cons.IH[OF m] by (simp add: key_ordered_Cons kv)
  next
    case 3
    with Cons.prems show ?thesis by (simp add: kv)
  qed
qed






lemma map_emplace_values:
  "list_all P m \<Longrightarrow> P (k, v) \<Longrightarrow> list_all P (map_emplace k v m)"
  by (induction m) auto


lemma map_subscript_emplace: "fst (map_subscript k m) = map_emplace k Null m"
  by (induction m) (auto split: prod.splits)

subsection \<open>Successful runs of the parser\<close>

lemma parse_value_Inr:
  assumes "parse_value s0 = Inr (v, r)"
  shows "parse_null (skip_ws s0) = Inr (v, r) \<or> parse_bool (skip_ws s0) = Inr (v, r) \<or>
         parse_string (skip_ws s0) = Inr (v, r) \<or> parse_number (skip_ws s0) = Inr (v, r) \<or>
         (peek (skip_ws s0) = CHR ''{'' \<and> parse_object (skip_ws s0) = Inr (v, r)) \<or>
         (peek (skip_ws s0) = CHR ''['' \<and> parse_array (skip_ws s0) = Inr (v, r))"
  using assms by (subst (asm) parse_value.simps) (auto simp: Let_def split: if_splits)

lemma parse_array_Inr:
  assumes "parse_array s = Inr (v, r)"
  obtains s1 where "expect CHR ''['' s = Inr s1" "peek (skip_ws s1) = CHR '']''" "v = Array []"
  | s1 where "expect CHR ''['' s = Inr s1" "peek (skip_ws s1) \<noteq> CHR '']''"
      "parse_array_loop [] (skip_ws s1) = Inr (v, r)"
  using assms by (subst (asm) parse_array.simps) (auto simp: Let_def split: if_splits sum.splits)

lemma parse_array_loop_Inr:
  assumes "parse_array_loop arr s = Inr (v, r)"
  obtains x y s2 where "parse_value s = Inr (x, y)" "get (skip_ws y) = (CHR '']'', s2)"
      "v = Array (arr @ [x])" "r = s2"
  | x y s2 where "parse_value s = Inr (x, y)" "get (skip_ws y) = (CHR '','', s2)"
      "parse_array_loop (arr @ [x]) (skip_ws s2) = Inr (v, r)"
  using assms
  by (subst (asm) parse_array_loop.simps) (auto split: if_splits sum.splits prod.splits)

lemma parse_object_Inr:
  assumes "parse_object s = Inr (v, r)"
  obtains s1 where "expect CHR ''{'' s = Inr s1" "peek (skip_ws s1) = CHR ''}''" "v = Object []"
  | s1 where "expect CHR ''{'' s = Inr s1" "peek (skip_ws s1) \<noteq> CHR ''}''"
      "parse_object_loop [] (skip_ws s1) = Inr (v, r)"
  using assms by (subst (asm) parse_object.simps) (auto simp: Let_def split: if_splits sum.splits)

lemma parse_object_loop_Inr:
  assumes "parse_object_loop obj s0 = Inr (v, r)"
  obtains key s1 s2 val s3 s4 where
      "\<not> peek (skip_ws s0) \<noteq> DQ"
      "and_then (parse_string (skip_ws s0)) (\<lambda>(k, s1). and_then (as_str k) (\<lambda>key. Inr (key, s1)))
         = Inr (key, s1)"
      "expect CHR '':'' (skip_ws s1) = Inr s2"
      "parse_value s2 = Inr (val, s3)"
      "get (skip_ws s3) = (CHR ''}'', s4)"
      "v = Object (map_emplace key val obj)" "r = s4"
  | key s1 s2 val s3 s4 where
      "\<not> peek (skip_ws s0) \<noteq> DQ"
      "and_then (parse_string (skip_ws s0)) (\<lambda>(k, s1). and_then (as_str k) (\<lambda>key. Inr (key, s1)))
         = Inr (key, s1)"
      "expect CHR '':'' (skip_ws s1) = Inr s2"
      "parse_value s2 = Inr (val, s3)"
      "get (skip_ws s3) = (CHR '','', s4)"
      "parse_object_loop (map_emplace key val obj) (skip_ws s4) = Inr (v, r)"
  using assms
  by (subst (asm) parse_object_loop.simps)
     (auto simp: Let_def split: if_splits sum.splits prod.splits)





subsection \<open>Duplicate keys\<close>








subsection \<open>Key order of the serialized object\<close>

text \<open>\<open>ordered\<close>: every object in the value, at any depth, has its keys in ascending order.\<close>

fun ordered :: "json \<Rightarrow> bool" where
  "ordered (Array a) = list_all ordered a"
| "ordered (Object m) = (key_ordered m \<and> list_all (\<lambda>kv. ordered (snd kv)) m)"
| "ordered j = True"

text \<open>
  The compact rendering as the spec words it: a container is its elements or
  \<^verbatim>\<open>"key":value\<close> members, in order, separated by commas, with no white space.
\<close>

fun join_with :: "string \<Rightarrow> string list \<Rightarrow> string" where
  "join_with sep [] = []"
| "join_with sep [x] = x"
| "join_with sep (x # y # ys) = x @ sep @ join_with sep (y # ys)"

fun compact :: "json \<Rightarrow> string" where
  "compact Null = ''null''"
| "compact (Boolean b) = (if b then ''true'' else ''false'')"
| "compact (Number d) = fmt_g15 d"
| "compact (String s) = [DQ] @ escape s @ [DQ]"
| "compact (Array a) = ''['' @ join_with '','' (map compact a) @ '']''"
| "compact (Object m) =
     ''{'' @ join_with '','' (map (\<lambda>kv. [DQ] @ escape (fst kv) @ [DQ] @ '':'' @ compact (snd kv)) m) @ ''}''"

lemma ind_compact [simp]: "ind (- 1) out d = out"
  by (simp add: ind_def)

lemma join_with_Cons: "join_with sep (x # xs) = (if xs = [] then x else x @ sep @ join_with sep xs)"
  by (cases xs) simp_all

lemma dump_array_compact:
  assumes "\<And>x out d. x \<in> set xs \<Longrightarrow> dump_impl x out (- 1) d = out @ compact x"
  shows "dump_array xs out (- 1) d = out @ join_with '','' (map compact xs)"
  using assms
proof (induction xs arbitrary: out)
  case Nil
  show ?case by simp
next
  case (Cons x xs)
  have "dump_array xs out' (- 1) d = out' @ join_with '','' (map compact xs)" for out'
    using Cons.IH Cons.prems by simp
  moreover have "dump_impl x out' (- 1) d' = out' @ compact x" for out' d'
    using Cons.prems by simp
  ultimately show ?case
    by (simp add: Let_def join_with_Cons)
qed

lemma dump_object_compact:
  assumes "\<And>kv out d. kv \<in> set m \<Longrightarrow> dump_impl (snd kv) out (- 1) d = out @ compact (snd kv)"
  shows "dump_object m out (- 1) d =
     out @ join_with '','' (map (\<lambda>kv. [DQ] @ escape (fst kv) @ [DQ] @ '':'' @ compact (snd kv)) m)"
  using assms
proof (induction m arbitrary: out)
  case Nil
  show ?case by simp
next
  case (Cons kv m)
  have "dump_object m out' (- 1) d =
     out' @ join_with '','' (map (\<lambda>kv. [DQ] @ escape (fst kv) @ [DQ] @ '':'' @ compact (snd kv)) m)" for out'
    using Cons.IH Cons.prems by simp
  moreover have "dump_impl (snd kv) out' (- 1) d' = out' @ compact (snd kv)" for out' d'
    using Cons.prems by simp
  ultimately show ?case
    by (simp add: Let_def join_with_Cons)
qed

lemma dump_impl_compact: "dump_impl v out (- 1) d = out @ compact v"
proof (induction v arbitrary: out d)
  case (Array a)
  then show ?case by (simp add: Let_def dump_array_compact)
next
  case (Object m)
  have "dump_impl (snd kv) out (- 1) d = out @ compact (snd kv)" if "kv \<in> set m" for kv out d
    using Object.IH[of kv "snd kv"] that by (cases kv) auto
  then show ?case by (simp add: Let_def dump_object_compact)
qed simp_all

lemma dump_compact: "dump v (- 1) = compact v"
  by (simp add: dump_def dump_impl_compact)

text \<open>
  The rendering in either mode as the spec words it: in pretty mode (\<open>0 \<le> indent\<close>) every
  element or member of a non-empty container is on a line of its own, after
  \<open>indent\<close> spaces for each level of nesting, a space follows the colon, and the closing
  bracket is on a line of its own; in compact mode there is no white space.
\<close>

definition newline :: "int \<Rightarrow> string" where
  "newline indent = (if 0 \<le> indent then [CHR 0x0A] else [])"

definition padding :: "int \<Rightarrow> int \<Rightarrow> string" where
  "padding indent d = (if 0 \<le> indent then replicate (nat (d * indent)) CHR '' '' else [])"

definition colon :: "int \<Rightarrow> string" where
  "colon indent = (if 0 \<le> indent then '': '' else '':'')"

definition bracket :: "int \<Rightarrow> int \<Rightarrow> string list \<Rightarrow> string" where
  "bracket indent d items =
     (if items = [] then []
      else newline indent @ join_with ('','' @ newline indent) items @ newline indent @ padding indent d)"

fun render :: "int \<Rightarrow> int \<Rightarrow> json \<Rightarrow> string" where
  "render i d Null = ''null''"
| "render i d (Boolean b) = (if b then ''true'' else ''false'')"
| "render i d (Number x) = fmt_g15 x"
| "render i d (String s) = [DQ] @ escape s @ [DQ]"
| "render i d (Array a) =
     ''['' @ bracket i d (map (\<lambda>x. padding i (d + 1) @ render i (d + 1) x) a) @ '']''"
| "render i d (Object m) =
     ''{'' @ bracket i d
        (map (\<lambda>kv. padding i (d + 1) @ [DQ] @ escape (fst kv) @ [DQ] @ colon i @ render i (d + 1) (snd kv)) m)
      @ ''}''"

lemma ind_padding: "ind i out d = out @ padding i d"
  by (simp add: ind_def padding_def)

lemma dump_array_render:
  assumes "\<And>x out d. x \<in> set xs \<Longrightarrow> dump_impl x out i d = out @ render i d x"
  shows "dump_array xs out i d =
     (if xs = [] then out
      else out @ join_with ('','' @ newline i) (map (\<lambda>x. padding i (d + 1) @ render i (d + 1) x) xs)
             @ newline i)"
  using assms
proof (induction xs arbitrary: out)
  case Nil
  show ?case by simp
next
  case (Cons x xs)
  have "dump_array xs out' i d =
     (if xs = [] then out'
      else out' @ join_with ('','' @ newline i) (map (\<lambda>x. padding i (d + 1) @ render i (d + 1) x) xs)
             @ newline i)" for out'
    using Cons.IH Cons.prems by simp
  moreover have "dump_impl x out' i d' = out' @ render i d' x" for out' d'
    using Cons.prems by simp
  ultimately show ?case
    by (simp add: Let_def join_with_Cons ind_padding newline_def)
qed

lemma dump_object_render:
  assumes "\<And>kv out d. kv \<in> set m \<Longrightarrow> dump_impl (snd kv) out i d = out @ render i d (snd kv)"
  shows "dump_object m out i d =
     (if m = [] then out
      else out @ join_with ('','' @ newline i)
                   (map (\<lambda>kv. padding i (d + 1) @ [DQ] @ escape (fst kv) @ [DQ] @ colon i
                               @ render i (d + 1) (snd kv)) m)
             @ newline i)"
  using assms
proof (induction m arbitrary: out)
  case Nil
  show ?case by simp
next
  case (Cons kv m)
  have "dump_object m out' i d =
     (if m = [] then out'
      else out' @ join_with ('','' @ newline i)
                   (map (\<lambda>kv. padding i (d + 1) @ [DQ] @ escape (fst kv) @ [DQ] @ colon i
                               @ render i (d + 1) (snd kv)) m)
             @ newline i)" for out'
    using Cons.IH Cons.prems by simp
  moreover have "dump_impl (snd kv) out' i d' = out' @ render i d' (snd kv)" for out' d'
    using Cons.prems by simp
  ultimately show ?case
    by (simp add: Let_def join_with_Cons ind_padding newline_def colon_def)
qed

lemma dump_impl_render: "dump_impl v out i d = out @ render i d v"
proof (induction v arbitrary: out d)
  case (Array a)
  then show ?case by (simp add: Let_def dump_array_render bracket_def ind_padding newline_def)
next
  case (Object m)
  have "dump_impl (snd kv) out i d = out @ render i d (snd kv)" if "kv \<in> set m" for kv out d
    using Object.IH[of kv "snd kv"] that by (cases kv) auto
  then show ?case by (simp add: Let_def dump_object_render bracket_def ind_padding newline_def)
qed simp_all

lemma dump_render: "dump v i = render i 0 v"
  by (simp add: dump_def dump_impl_render)

lemma replicate_pred: "replicate (numeral k) x = x # replicate (pred_numeral k) x"
  by (simp add: numeral_eq_Suc)


lemma list_all_snoc: "list_all P (xs @ [x]) \<longleftrightarrow> list_all P xs \<and> P x"
  by simp

lemma parse_scalar_ordered:
  "parse_null s = Inr (v, r) \<Longrightarrow> ordered v"
  "parse_bool s = Inr (v, r) \<Longrightarrow> ordered v"
  "parse_string s = Inr (v, r) \<Longrightarrow> ordered v"
  "parse_number s = Inr (v, r) \<Longrightarrow> ordered v"
  by (auto simp: parse_null_Inr parse_bool_Inr parse_string_def parse_number_def Let_def
      and_then_Inr split: if_splits)



lemma parse_ordered_all:
  "\<forall>v r. parse_value s0 = Inr (v, r) \<longrightarrow> ordered v"
  "\<forall>v r. parse_array s = Inr (v, r) \<longrightarrow> ordered v"
  "list_all ordered arr \<longrightarrow> (\<forall>v r. parse_array_loop arr s = Inr (v, r) \<longrightarrow> ordered v)"
  "\<forall>v r. parse_object s = Inr (v, r) \<longrightarrow> ordered v"
  "ordered (Object obj) \<longrightarrow> (\<forall>v r. parse_object_loop obj s0 = Inr (v, r) \<longrightarrow> ordered v)"
proof (induct rule: parse_value_parse_array_parse_array_loop_parse_object_parse_object_loop.induct)
  case (1 s0)
  show ?case
  proof (intro allI impI)
    fix v r
    assume "parse_value s0 = Inr (v, r)"
    from parse_value_Inr[OF this] show "ordered v"
      using 1(1)[OF refl refl] 1(2)[OF refl refl]
      by (auto dest: parse_scalar_ordered simp: isdigit_def)
  qed
next
  case (2 s)
  show ?case
  proof (intro allI impI)
    fix v r
    assume "parse_array s = Inr (v, r)"
    then show "ordered v"
    proof (cases rule: parse_array_Inr)
      case (1 s1)
      then show ?thesis by simp
    next
      case (2 s1)
      with "2.hyps"[OF 2(1) refl 2(2)] show ?thesis by simp
    qed
  qed
next
  case (3 arr s)
  show ?case
  proof (intro allI impI)
    fix v r
    assume arr: "list_all ordered arr" and "parse_array_loop arr s = Inr (v, r)"
    from this(2) show "ordered v"
    proof (cases rule: parse_array_loop_Inr)
      case (1 x y s2)
      with 3(1) arr show ?thesis by simp
    next
      case (2 x y s2)
      have "list_all ordered (arr @ [x])" using 3(1) 2(1) arr by simp
      with 3(2)[OF 2(1) refl 2(2)[symmetric]] 2(3) show ?thesis by simp
    qed
  qed
next
  case (4 s)
  show ?case
  proof (intro allI impI)
    fix v r
    assume "parse_object s = Inr (v, r)"
    then show "ordered v"
    proof (cases rule: parse_object_Inr)
      case (1 s1)
      then show ?thesis by simp
    next
      case (2 s1)
      with "4.hyps"[OF 2(1) refl 2(2)] show ?thesis by simp
    qed
  qed
next
  case (5 obj s0)
  show ?case
  proof (intro allI impI)
    fix v r
    assume obj: "ordered (Object obj)" and "parse_object_loop obj s0 = Inr (v, r)"
    from this(2) show "ordered v"
    proof (cases rule: parse_object_loop_Inr)
      case (1 key s1 s2 val s3 s4)
      have "ordered val" using 5(1)[OF refl 1(1) 1(2) refl 1(3)] 1(4) by simp
      with obj 1(6) show ?thesis
        by (simp add: map_emplace_ordered map_emplace_values)
    next
      case (2 key s1 s2 val s3 s4)
      have "ordered val" using 5(1)[OF refl 2(1) 2(2) refl 2(3)] 2(4) by simp
      with obj have "ordered (Object (map_emplace key val obj))"
        by (simp add: map_emplace_ordered map_emplace_values)
      with 5(2)[OF refl 2(1) 2(2) refl 2(3) 2(4) refl refl 2(5)[symmetric]] 2(6)
      show ?thesis by simp
    qed
  qed
qed

lemma parse_ordered: "parse s = Inr v \<Longrightarrow> ordered v"
  using parse_ordered_all(1)[of s]
  by (auto simp: parse_def split: sum.splits prod.splits if_splits)


lemma parse_reordered:
  "parse (''{'' @ [DQ] @ ''b'' @ [DQ] @ '':1,'' @ [DQ] @ ''a'' @ [DQ] @ '':2}'')
     = Inr (Object [(''a'', Number (Double False 1024 0)), (''b'', Number (Double False 1023 0))])"
  by (simp add: parser_eval number_eval)

lemma dump_reordered:
  "dump (Object [(''a'', Number (Double False 1024 0)), (''b'', Number (Double False 1023 0))]) (- 1)
     = ''{'' @ [DQ] @ ''a'' @ [DQ] @ '':2,'' @ [DQ] @ ''b'' @ [DQ] @ '':1}''"
  by (simp add: dump_eval number_eval)

lemma dump_pretty_example:
  "dump (Object [(''a'', Number (Double False 1024 0)), (''b'', Array [Null])]) 2
     = ''{'' @ [CHR 0x0A] @
       ''  '' @ [DQ] @ ''a'' @ [DQ] @ '': 2,'' @ [CHR 0x0A] @
       ''  '' @ [DQ] @ ''b'' @ [DQ] @ '': ['' @ [CHR 0x0A] @
       ''    null'' @ [CHR 0x0A] @
       ''  ]'' @ [CHR 0x0A] @
       ''}''"
  by (simp add: dump_eval number_eval replicate_pred)

text \<open>
  C7. Every object in a parsed value has its keys in strictly ascending order of
  \<^verbatim>\<open>std::string\<close>, whatever the order of the members in the text; \<^verbatim>\<open>emplace\<close> and the map's
  \<^verbatim>\<open>operator[]\<close> keep that order whatever key is inserted; and the dump of an object, in
  every mode (any \<open>indent\<close>, compact or pretty) and at every depth of nesting, writes the
  members in the order of the map, each one once: the text is the opening brace, the
  members \<^verbatim>\<open>"key":value\<close> in that order with the separators of the mode between them, and the
  closing brace; the dump of any value is its rendering \<open>render\<close>, which lists the members of
  every nested object in the order of its map as well. Parsing \<^verbatim>\<open>{"b":1,"a":2}\<close> and dumping
  the result gives \<^verbatim>\<open>{"a":2,"b":1}\<close>.
\<close>

theorem object_members_in_key_order:
  "(parse s = Inr j \<longrightarrow> ordered j) \<and>
   (key_ordered obj \<longrightarrow> key_ordered (map_emplace k v obj) \<and> key_ordered (fst (map_subscript k obj))) \<and>
   dump_impl (Object obj) out indent depth =
     out @ ''{'' @
     bracket indent depth
       (map (\<lambda>kv. padding indent (depth + 1) @ [DQ] @ escape (fst kv) @ [DQ] @ colon indent @
                   dump_impl (snd kv) [] indent (depth + 1)) obj) @
     ''}'' \<and>
   dump v indent = render indent 0 v \<and>
   dump (Object obj) (- 1) =
     ''{'' @ join_with '','' (map (\<lambda>kv. [DQ] @ escape (fst kv) @ [DQ] @ '':'' @ dump (snd kv) (- 1)) obj) @ ''}'' \<and>
   and_then (parse (''{'' @ [DQ] @ ''b'' @ [DQ] @ '':1,'' @ [DQ] @ ''a'' @ [DQ] @ '':2}''))
       (\<lambda>j. Inr (dump j (- 1)))
     = Inr (''{'' @ [DQ] @ ''a'' @ [DQ] @ '':2,'' @ [DQ] @ ''b'' @ [DQ] @ '':1}'')"
proof -
  have "parse s = Inr j \<longrightarrow> ordered j"
    using parse_ordered by blast
  moreover have "key_ordered obj \<longrightarrow>
      key_ordered (map_emplace k v obj) \<and> key_ordered (fst (map_subscript k obj))"
    by (simp add: map_emplace_ordered map_subscript_emplace)
  moreover have "dump_impl (Object obj) out indent depth =
     out @ ''{'' @
     bracket indent depth
       (map (\<lambda>kv. padding indent (depth + 1) @ [DQ] @ escape (fst kv) @ [DQ] @ colon indent @
                   dump_impl (snd kv) [] indent (depth + 1)) obj) @
     ''}''"
    by (simp add: dump_impl_render)
  moreover have "dump v indent = render indent 0 v"
    by (rule dump_render)
  moreover have "dump (Object obj) (- 1) =
     ''{'' @ join_with '','' (map (\<lambda>kv. [DQ] @ escape (fst kv) @ [DQ] @ '':'' @ dump (snd kv) (- 1)) obj) @ ''}''"
    by (simp add: dump_compact)
  moreover have "and_then (parse (''{'' @ [DQ] @ ''b'' @ [DQ] @ '':1,'' @ [DQ] @ ''a'' @ [DQ] @ '':2}''))
       (\<lambda>j. Inr (dump j (- 1)))
     = Inr (''{'' @ [DQ] @ ''a'' @ [DQ] @ '':2,'' @ [DQ] @ ''b'' @ [DQ] @ '':1}'')"
    by (simp only: parse_reordered dump_reordered and_then_def sum.case)
  ultimately show ?thesis by (intro conjI)
qed

theorem object_members_in_key_order_witness:
  "parse (''{'' @ [DQ] @ ''b'' @ [DQ] @ '':1,'' @ [DQ] @ ''a'' @ [DQ] @ '':2}'')
     = Inr (Object [(''a'', Number (Double False 1024 0)), (''b'', Number (Double False 1023 0))]) \<and>
   ordered (Object [(''a'', Number (Double False 1024 0)), (''b'', Number (Double False 1023 0))]) \<and>
   key_ordered [(''b'', Null)] \<and>
   key_ordered (map_emplace ''a'' Null [(''b'', Null)]) \<and>
   map_emplace ''a'' Null [(''b'', Null)] = [(''a'', Null), (''b'', Null)] \<and>
   dump_impl (Object [(''b'', Null)]) [] 2 0 =
     ''{'' @ [CHR 0x0A] @ ''  '' @ [DQ] @ ''b'' @ [DQ] @ '': null'' @ [CHR 0x0A] @ ''}''"
  using object_members_in_key_order[of
      "''{'' @ [DQ] @ ''b'' @ [DQ] @ '':1,'' @ [DQ] @ ''a'' @ [DQ] @ '':2}''"
      "Object [(''a'', Number (Double False 1024 0)), (''b'', Number (Double False 1023 0))]"
      "[(''b'', Null)]" "''a''" Null "[]" 2 0]
    parse_reordered
  by (simp add: key_ordered_def bracket_def newline_def padding_def colon_def replicate_pred dump_eval)

subsection \<open>Strings through dump and parse\<close>

text \<open>
  What \<open>parse_string\<close> reads back from the escape of one character: the character itself,
  except for a control character without a short escape, whose \<^verbatim>\<open>\u00XX\<close> stays as text.
\<close>

definition named_escape :: "char \<Rightarrow> bool" where
  "named_escape c = (c \<in> {CHR 0x08, CHR 0x09, CHR 0x0A, CHR 0x0C, CHR 0x0D})"

definition reread :: "char \<Rightarrow> string" where
  "reread c = (if c < CHR 0x20 \<and> \<not> named_escape c then escape_char c else [c])"

lemma parse_string_loop_escape_char:
  "parse_string_loop out (escape_char c @ s) = parse_string_loop (out @ reread c) s"
proof -
  consider "c = DQ" | "c = BS" | "named_escape c" | "c < CHR 0x20" "\<not> named_escape c"
    | "c \<noteq> DQ" "c \<noteq> BS" "\<not> c < CHR 0x20"
    by blast
  then show ?thesis
  proof cases
    case 1
    then show ?thesis
      by (simp add: escape_char_def reread_def named_escape_def parse_string_loop_escape)
  next
    case 2
    then show ?thesis
      by (simp add: escape_char_def reread_def named_escape_def parse_string_loop_escape)
  next
    case 3
    then show ?thesis
      by (auto simp: escape_char_def reread_def named_escape_def parse_string_loop_escape)
  next
    case 4
    then have "c \<noteq> DQ" "c \<noteq> BS" by auto
    with 4 show ?thesis
      by (simp add: escape_char_def reread_def named_escape_def parse_string_loop_escape)
  next
    case 5
    then have "\<not> named_escape c" by (auto simp: named_escape_def)
    with 5 show ?thesis
      by (simp add: escape_char_def reread_def named_escape_def parse_string_loop_plain)
  qed
qed

lemma parse_string_loop_escape_string:
  "parse_string_loop out (escape s @ DQ # rest) = Inr (out @ concat (map reread s), rest)"
  by (induction s arbitrary: out) (simp_all add: parse_string_loop_escape_char)

lemma parse_quoted:
  "parse ([DQ] @ escape s @ [DQ]) = Inr (String (concat (map reread s)))"
  using parse_string_loop_escape_string[of "[]" s "[]"]
  by (simp add: parse_def parse_value.simps[of "DQ # escape s @ [DQ]"] skip_ws_Cons isspace_def
      parse_string_def expect_def and_then_def eof_def)

lemma reread_plain:
  "\<forall>c \<in> set s. CHR 0x20 \<le> c \<or> named_escape c \<Longrightarrow> concat (map reread s) = s"
  by (induction s) (auto simp: reread_def)

lemma dump_parse_string:
  "\<forall>c \<in> set s. CHR 0x20 \<le> c \<or> c \<in> {CHR 0x08, CHR 0x09, CHR 0x0A, CHR 0x0C, CHR 0x0D} \<Longrightarrow>
     parse (dump (String s) (- 1)) = Inr (String s)"
  using reread_plain[of s] parse_quoted[of s]
  by (simp add: dump_def named_escape_def)

lemma dump_parse_control:
  "parse (dump (String [DQ, BS, CHR 0x0A, CHR 0x09, CHR 0x01]) (- 1))
     = Inr (String ([DQ, BS, CHR 0x0A, CHR 0x09, BS] @ ''u0001''))"
  by (simp add: dump_eval parser_eval number_eval)

text \<open>
  C3, as the spec states it, fails: the string of a double quote, a backslash, a newline, a
  tab and the byte 0x01 comes back with the six characters \<^verbatim>\<open>\u0001\<close> in place of the byte.
\<close>

theorem control_byte_not_reproduced:
  "parse (dump (String [DQ, BS, CHR 0x0A, CHR 0x09, CHR 0x01]) (- 1))
     \<noteq> Inr (String [DQ, BS, CHR 0x0A, CHR 0x09, CHR 0x01])"
  using dump_parse_control by simp

text \<open>
  C3, amended. A string whose every character is 0x20 or above (the double quote and the
  backslash among them) or one of the controls with a short escape, \<^verbatim>\<open>\b \t \n \f \r\<close>, is
  reproduced exactly by dumping and parsing.
\<close>

theorem escape_round_trip:
  "\<forall>c \<in> set s. CHR 0x20 \<le> c \<or> c \<in> {CHR 0x08, CHR 0x09, CHR 0x0A, CHR 0x0C, CHR 0x0D} \<Longrightarrow>
     parse (dump (String s) (- 1)) = Inr (String s)"
  by (rule dump_parse_string)

theorem escape_round_trip_witness:
  "parse (dump (String [DQ, BS, CHR 0x0A, CHR 0x09, CHR ''a'']) (- 1))
     = Inr (String [DQ, BS, CHR 0x0A, CHR 0x09, CHR ''a''])"
  using escape_round_trip[of "[DQ, BS, CHR 0x0A, CHR 0x09, CHR ''a'']"] by simp


subsection \<open>Number tokens\<close>

text \<open>
  The number production as the spec words it: an optional minus sign; an integer part that
  is a single 0 or a digit run that does not start with 0; an optional fraction, a point and
  at least one digit; an optional exponent, \<open>e\<close> or \<open>E\<close>, an optional sign and at least one
  digit.
\<close>

definition is_int_part :: "string \<Rightarrow> bool" where
  "is_int_part ip = (ip = ''0'' \<or> (ip \<noteq> [] \<and> list_all isdigit ip \<and> hd ip \<noteq> CHR ''0''))"

definition is_frac_part :: "string \<Rightarrow> bool" where
  "is_frac_part fp = (fp = [] \<or> (hd fp = CHR ''.'' \<and> tl fp \<noteq> [] \<and> list_all isdigit (tl fp)))"

definition is_exp_part :: "string \<Rightarrow> bool" where
  "is_exp_part ep =
     (ep = [] \<or>
      ((hd ep = CHR ''e'' \<or> hd ep = CHR ''E'') \<and>
       (let r = tl ep;
            ds = (if r \<noteq> [] \<and> (hd r = CHR ''+'' \<or> hd r = CHR ''-'') then tl r else r)
        in ds \<noteq> [] \<and> list_all isdigit ds)))"

definition is_number_token :: "string \<Rightarrow> bool" where
  "is_number_token t =
     (\<exists>sg ip fp ep. t = sg @ ip @ fp @ ep \<and> (sg = [] \<or> sg = ''-'') \<and>
        is_int_part ip \<and> is_frac_part fp \<and> is_exp_part ep)"

lemma skip_digits_Nil [simp]: "skip_digits [] = []"
  by (subst skip_digits.simps) (simp add: isdigit_def)

lemma skip_digits_Cons: "skip_digits (c # s) = (if isdigit c then skip_digits s else c # s)"
  by (subst skip_digits.simps) simp

lemma skip_digits_stop: "\<not> isdigit (peek s) \<Longrightarrow> skip_digits s = s"
  by (subst skip_digits.simps) simp

lemma skip_digits_append:
  "list_all isdigit ds \<Longrightarrow> \<not> isdigit (peek rest) \<Longrightarrow> skip_digits (ds @ rest) = rest"
  by (induction ds) (simp_all add: skip_digits_Cons skip_digits_stop)

lemma peek_append: "peek (xs @ ys) = (if xs = [] then peek ys else hd xs)"
  by (cases xs) simp_all

lemma not_isdigit_chars [simp]:
  "\<not> isdigit NUL" "\<not> isdigit (CHR ''.'')" "\<not> isdigit (CHR ''e'')" "\<not> isdigit (CHR ''E'')"
  "\<not> isdigit (CHR ''-'')" "\<not> isdigit (CHR ''+'')"
  by (simp_all add: isdigit_def)

lemma isdigit_zero [simp]: "isdigit (CHR ''0'')"
  by (simp add: isdigit_def)

lemma peek_exp_part: "is_exp_part ep \<Longrightarrow> \<not> isdigit (peek ep) \<and> peek ep \<noteq> CHR ''.''"
  by (cases ep) (auto simp: is_exp_part_def)

lemma peek_frac_exp:
  "is_frac_part fp \<Longrightarrow> is_exp_part ep \<Longrightarrow> \<not> isdigit (peek (fp @ ep))"
  by (cases fp) (auto simp: is_frac_part_def peek_exp_part)

lemma number_int_step:
  assumes "is_int_part ip" "is_frac_part fp" "is_exp_part ep"
  shows "\<not> (peek (ip @ fp @ ep) \<noteq> CHR ''0'' \<and> \<not> isdigit (peek (ip @ fp @ ep)))"
    and "(if peek (ip @ fp @ ep) = CHR ''0'' then tl (ip @ fp @ ep) else skip_digits (ip @ fp @ ep))
           = fp @ ep"
    and "peek (ip @ fp @ ep) \<noteq> CHR ''-''"
proof -
  from assms(1) have ne: "ip \<noteq> []" and d: "list_all isdigit ip"
    by (auto simp: is_int_part_def)
  then have hd: "isdigit (hd ip)" by (cases ip) auto
  with ne show "\<not> (peek (ip @ fp @ ep) \<noteq> CHR ''0'' \<and> \<not> isdigit (peek (ip @ fp @ ep)))"
    by (simp add: peek_append)
  from hd ne show "peek (ip @ fp @ ep) \<noteq> CHR ''-''"
    by (auto simp: peek_append)
  show "(if peek (ip @ fp @ ep) = CHR ''0'' then tl (ip @ fp @ ep) else skip_digits (ip @ fp @ ep))
           = fp @ ep"
  proof (cases "ip = ''0''")
    case True
    then show ?thesis by simp
  next
    case False
    with assms(1) have "hd ip \<noteq> CHR ''0''" by (simp add: is_int_part_def)
    with ne d peek_frac_exp[OF assms(2,3)] show ?thesis
      by (simp add: peek_append skip_digits_append)
  qed
qed

lemma number_frac_step:
  assumes "is_frac_part fp" "is_exp_part ep"
  shows "\<not> (peek (fp @ ep) = CHR ''.'' \<and> \<not> isdigit (peek (tl (fp @ ep))))"
    and "(if peek (fp @ ep) = CHR ''.'' then skip_digits (tl (fp @ ep)) else fp @ ep) = ep"
proof -
  show "\<not> (peek (fp @ ep) = CHR ''.'' \<and> \<not> isdigit (peek (tl (fp @ ep))))"
  proof (cases fp)
    case Nil
    with peek_exp_part[OF assms(2)] show ?thesis by simp
  next
    case (Cons c ds)
    with assms(1) have "ds \<noteq> []" "list_all isdigit ds" by (auto simp: is_frac_part_def)
    then have "isdigit (hd ds)" by (cases ds) auto
    with Cons \<open>ds \<noteq> []\<close> show ?thesis by (simp add: peek_append)
  qed
  show "(if peek (fp @ ep) = CHR ''.'' then skip_digits (tl (fp @ ep)) else fp @ ep) = ep"
  proof (cases fp)
    case Nil
    with peek_exp_part[OF assms(2)] show ?thesis by simp
  next
    case (Cons c ds)
    with assms(1) have "c = CHR ''.''" "list_all isdigit ds" by (auto simp: is_frac_part_def)
    with Cons peek_exp_part[OF assms(2)] show ?thesis by (simp add: skip_digits_append)
  qed
qed

lemma number_exp_step:
  assumes "is_exp_part ep"
  shows "\<not> ((peek ep = CHR ''e'' \<or> peek ep = CHR ''E'') \<and>
            \<not> isdigit (peek (if (peek ep = CHR ''e'' \<or> peek ep = CHR ''E'') \<and>
                 (peek (if peek ep = CHR ''e'' \<or> peek ep = CHR ''E'' then tl ep else ep) = CHR ''+'' \<or>
                  peek (if peek ep = CHR ''e'' \<or> peek ep = CHR ''E'' then tl ep else ep) = CHR ''-'')
               then tl (if peek ep = CHR ''e'' \<or> peek ep = CHR ''E'' then tl ep else ep)
               else (if peek ep = CHR ''e'' \<or> peek ep = CHR ''E'' then tl ep else ep))))"
    and "(if peek ep = CHR ''e'' \<or> peek ep = CHR ''E''
          then skip_digits (if (peek ep = CHR ''e'' \<or> peek ep = CHR ''E'') \<and>
                 (peek (if peek ep = CHR ''e'' \<or> peek ep = CHR ''E'' then tl ep else ep) = CHR ''+'' \<or>
                  peek (if peek ep = CHR ''e'' \<or> peek ep = CHR ''E'' then tl ep else ep) = CHR ''-'')
               then tl (if peek ep = CHR ''e'' \<or> peek ep = CHR ''E'' then tl ep else ep)
               else (if peek ep = CHR ''e'' \<or> peek ep = CHR ''E'' then tl ep else ep))
          else ep) = []"
proof -
  show "\<not> ((peek ep = CHR ''e'' \<or> peek ep = CHR ''E'') \<and>
            \<not> isdigit (peek (if (peek ep = CHR ''e'' \<or> peek ep = CHR ''E'') \<and>
                 (peek (if peek ep = CHR ''e'' \<or> peek ep = CHR ''E'' then tl ep else ep) = CHR ''+'' \<or>
                  peek (if peek ep = CHR ''e'' \<or> peek ep = CHR ''E'' then tl ep else ep) = CHR ''-'')
               then tl (if peek ep = CHR ''e'' \<or> peek ep = CHR ''E'' then tl ep else ep)
               else (if peek ep = CHR ''e'' \<or> peek ep = CHR ''E'' then tl ep else ep))))"
  proof (cases ep)
    case Nil
    then show ?thesis by simp
  next
    case (Cons c r)
    show ?thesis
    proof (cases r)
      case Nil
      with Cons assms show ?thesis by (simp add: is_exp_part_def)
    next
      case (Cons c' r')
      with \<open>ep = c # r\<close> assms show ?thesis
        by (cases r') (auto simp: is_exp_part_def Let_def split: if_splits)
    qed
  qed
  show "(if peek ep = CHR ''e'' \<or> peek ep = CHR ''E''
          then skip_digits (if (peek ep = CHR ''e'' \<or> peek ep = CHR ''E'') \<and>
                 (peek (if peek ep = CHR ''e'' \<or> peek ep = CHR ''E'' then tl ep else ep) = CHR ''+'' \<or>
                  peek (if peek ep = CHR ''e'' \<or> peek ep = CHR ''E'' then tl ep else ep) = CHR ''-'')
               then tl (if peek ep = CHR ''e'' \<or> peek ep = CHR ''E'' then tl ep else ep)
               else (if peek ep = CHR ''e'' \<or> peek ep = CHR ''E'' then tl ep else ep))
          else ep) = []"
  proof (cases ep)
    case Nil
    then show ?thesis by simp
  next
    case (Cons c r)
    show ?thesis
    proof (cases r)
      case Nil
      with Cons assms show ?thesis by (simp add: is_exp_part_def)
    next
      case (Cons c' r')
      with \<open>ep = c # r\<close> assms skip_digits_append[of _ "[]"] show ?thesis
        by (auto simp: is_exp_part_def Let_def skip_digits_Cons split: if_splits)
    qed
  qed
qed


lemma parse_number_token:
  assumes "sg = [] \<or> sg = ''-''" "is_int_part ip" "is_frac_part fp" "is_exp_part ep"
  shows "parse_number (sg @ ip @ fp @ ep)
           = and_then (stod (sg @ ip @ fp @ ep)) (\<lambda>d. Inr (Number d, []))"
proof -
  let ?tok = "sg @ ip @ fp @ ep"
  have s1: "(if peek ?tok = CHR ''-'' then tl ?tok else ?tok) = ip @ fp @ ep"
    using assms(1) number_int_step(3)[OF assms(2,3,4)] by auto
  note ipart = number_int_step(1,2)[OF assms(2,3,4)]
  note frac = number_frac_step[OF assms(3,4)]
  note ex = number_exp_step[OF assms(4)]
  show ?thesis
    apply (simp only: parse_number_def Let_def s1 ipart frac ex if_False)
    apply simp
    done
qed

lemma parse_token:
  assumes "sg = [] \<or> sg = ''-''" "is_int_part ip" "is_frac_part fp" "is_exp_part ep"
  shows "parse (sg @ ip @ fp @ ep)
           = (case stod (sg @ ip @ fp @ ep) of Inl e \<Rightarrow> Inl e | Inr d \<Rightarrow> Inr (Number d))"
proof -
  let ?tok = "sg @ ip @ fp @ ep"
  from assms(2) have ne: "ip \<noteq> []" and d: "list_all isdigit ip"
    by (auto simp: is_int_part_def)
  then have hd: "isdigit (hd ip)" by (cases ip) auto
  have pk: "peek ?tok = CHR ''-'' \<or> isdigit (peek ?tok)"
    using assms(1) hd ne by (auto simp: peek_append)
  then have nsp: "\<not> isspace (peek ?tok)" and ne': "?tok \<noteq> []"
    using ne by (auto simp: isspace_def isdigit_def)
  then have sk: "skip_ws ?tok = ?tok"
    by (cases ?tok) (simp_all add: skip_ws_Cons)
  have disp: "parse_value ?tok = parse_number ?tok"
    using pk by (subst parse_value.simps) (auto simp: sk Let_def isdigit_def)
  show ?thesis
    by (simp add: parse_def disp parse_number_token[OF assms] and_then_def eof_def split: sum.splits)
qed

lemma digit_char_isdigit: "d < 10 \<Longrightarrow> isdigit (digit_char d)"
  by (auto simp: digit_char_def isdigit_def eval_nat_numeral less_Suc_eq)

lemma digit_char_zero: "d < 10 \<Longrightarrow> digit_char d = CHR ''0'' \<longleftrightarrow> d = 0"
  by (auto simp: digit_char_def eval_nat_numeral less_Suc_eq)

lemma dec_digits_nonempty: "dec_digits n \<noteq> []"
  by (subst dec_digits.simps) simp

lemma dec_digits_isdigit: "list_all isdigit (dec_digits n)"
proof (induction n rule: dec_digits.induct)
  case (1 n)
  then show ?case
    by (subst dec_digits.simps) (simp add: digit_char_isdigit)
qed

lemma dec_digits_leading: "dec_digits n = ''0'' \<or> hd (dec_digits n) \<noteq> CHR ''0''"
proof (induction n rule: dec_digits.induct)
  case (1 n)
  show ?case
  proof (cases "n < 10")
    case True
    then show ?thesis
      by (subst dec_digits.simps, subst (2) dec_digits.simps)
         (auto simp: digit_char_zero digit_char_def)
  next
    case False
    then have "n div 10 \<noteq> 0" by simp
    have "dec_digits (n div 10) \<noteq> ''0''"
    proof
      assume z: "dec_digits (n div 10) = ''0''"
      show False
      proof (cases "n div 10 < 10")
        case True
        with z \<open>n div 10 \<noteq> 0\<close> show False
          by (subst (asm) dec_digits.simps) (simp add: digit_char_zero)
      next
        case False
        with z dec_digits_nonempty[of "n div 10 div 10"] show False
          by (subst (asm) dec_digits.simps) simp
      qed
    qed
    with 1[OF False] have "hd (dec_digits (n div 10)) \<noteq> CHR ''0''" by simp
    with False dec_digits_nonempty[of "n div 10"] show ?thesis
      by (subst (2) dec_digits.simps) simp
  qed
qed

lemma is_int_part_take:
  "0 < k \<Longrightarrow> is_int_part (take k (dec_digits n))"
proof -
  assume k: "0 < k"
  let ?ds = "dec_digits n"
  have ne: "take k ?ds \<noteq> []" using k dec_digits_nonempty[of n] by simp
  have all: "list_all isdigit (take k ?ds)"
    using dec_digits_isdigit[of n] by (simp add: list_all_iff) (meson in_set_takeD)
  from dec_digits_leading[of n] show ?thesis
  proof
    assume "?ds = ''0''"
    with k show ?thesis by (cases k) (simp_all add: is_int_part_def)
  next
    assume "hd ?ds \<noteq> CHR ''0''"
    moreover have "hd (take k ?ds) = hd ?ds" using k by (cases ?ds; cases k) simp_all
    ultimately show ?thesis using ne all by (simp add: is_int_part_def)
  qed
qed

lemma strip_zeros_all: "list_all P ds \<Longrightarrow> list_all P (strip_zeros ds)"
  by (auto simp: strip_zeros_def list_all_iff dest: set_dropWhileD)

lemma is_frac_part_frac_part: "list_all isdigit ds \<Longrightarrow> is_frac_part (frac_part ds)"
  by (simp add: frac_part_def Let_def is_frac_part_def strip_zeros_all)

lemma drop_all: "list_all P ds \<Longrightarrow> list_all P (drop k ds)"
  by (simp add: list_all_iff) (meson in_set_dropD)

lemma is_number_tokenI:
  "(sg = [] \<or> sg = ''-'') \<Longrightarrow> is_int_part ip \<Longrightarrow> is_frac_part fp \<Longrightarrow> is_exp_part ep \<Longrightarrow>
     is_number_token (sg @ ip @ fp @ ep)"
  unfolding is_number_token_def by blast

lemma is_exp_part_Nil: "is_exp_part []"
  by (simp add: is_exp_part_def)

lemma is_frac_part_Nil: "is_frac_part []"
  by (simp add: is_frac_part_def)

lemma zero_token:
  assumes "sg = [] \<or> sg = ''-''"
  shows "is_number_token (sg @ ''0'')"
proof -
  have "is_int_part ''0''" by (simp add: is_int_part_def)
  from is_number_tokenI[OF assms this is_frac_part_Nil is_exp_part_Nil] show ?thesis by simp
qed

lemma fmt_fixed_token:
  assumes "sg = [] \<or> sg = ''-''"
  shows "is_number_token (sg @ fmt_fixed (dec_digits n) X)"
proof (cases "0 \<le> X")
  case True
  have "is_number_token (sg @ take (nat X + 1) (dec_digits n)
          @ frac_part (drop (nat X + 1) (dec_digits n)) @ [])"
    by (rule is_number_tokenI[OF assms is_int_part_take
          is_frac_part_frac_part[OF drop_all[OF dec_digits_isdigit]] is_exp_part_Nil]) simp
  with True show ?thesis by (simp add: fmt_fixed_def)
next
  case False
  have "list_all isdigit (replicate (nat (- X - 1)) CHR ''0'' @ dec_digits n)"
    using dec_digits_isdigit[of n] by (auto simp: list_all_iff)
  then have "is_number_token (sg @ ''0''
          @ frac_part (replicate (nat (- X - 1)) CHR ''0'' @ dec_digits n) @ [])"
    by (intro is_number_tokenI[OF assms _ is_frac_part_frac_part is_exp_part_Nil])
       (simp_all add: is_int_part_def)
  with False show ?thesis by (simp add: fmt_fixed_def)
qed

lemma is_exp_part_exp:
  "is_exp_part (''e'' @ (if X < 0 then ''-'' else ''+'') @ (if \<bar>X\<bar> < 10 then ''0'' else [])
      @ dec_digits (nat \<bar>X\<bar>))"
  by (simp add: is_exp_part_def dec_digits_isdigit dec_digits_nonempty)

lemma fmt_exp_token:
  assumes "sg = [] \<or> sg = ''-''"
  shows "is_number_token (sg @ fmt_exp (dec_digits n) X)"
proof -
  have "is_number_token (sg @ take 1 (dec_digits n) @ frac_part (drop 1 (dec_digits n)) @
      (''e'' @ (if X < 0 then ''-'' else ''+'') @ (if \<bar>X\<bar> < 10 then ''0'' else [])
         @ dec_digits (nat \<bar>X\<bar>)))"
    by (rule is_number_tokenI[OF assms is_int_part_take
          is_frac_part_frac_part[OF drop_all[OF dec_digits_isdigit]] is_exp_part_exp]) simp
  then show ?thesis by (simp add: fmt_exp_def)
qed

lemma token_if:
  "is_number_token (sg @ a) \<Longrightarrow> is_number_token (sg @ b) \<Longrightarrow>
     is_number_token (sg @ (if c then a else b))"
  by simp

lemma fmt_g15_token:
  assumes "isfinite d"
  shows "is_number_token (fmt_g15 d)"
proof -
  have fin: "(expo d = 2047) = False"
    using assms by (simp add: isfinite_def)
  have sg: "(if sign d then ''-'' else []) = [] \<or> (if sign d then ''-'' else []) = ''-''"
    by simp
  show ?thesis
    unfolding fmt_g15_def Let_def fin if_False
    by (intro token_if zero_token[OF sg] fmt_fixed_token[OF sg] fmt_exp_token[OF sg])
qed

lemma parse_number_token_total:
  assumes "is_number_token t"
  shows "parse t = (case stod t of Inl e \<Rightarrow> Inl e | Inr d \<Rightarrow> Inr (Number d))"
proof -
  from assms obtain sg ip fp ep where
    "t = sg @ ip @ fp @ ep" "sg = [] \<or> sg = ''-''" "is_int_part ip" "is_frac_part fp"
    "is_exp_part ep"
    unfolding is_number_token_def by blast
  then show ?thesis using parse_token[of sg ip fp ep] by simp
qed

lemma parse_fmt_g15:
  "isfinite d \<Longrightarrow>
     parse (fmt_g15 d) = (case stod (fmt_g15 d) of Inl e \<Rightarrow> Inl e | Inr d' \<Rightarrow> Inr (Number d'))"
  by (rule parse_number_token_total[OF fmt_g15_token])

subsection \<open>The conversion never returns an infinity\<close>

lemma ndigits_le: "2 \<le> b \<Longrightarrow> n < b ^ k \<Longrightarrow> ndigits b n \<le> k"
proof (induction k arbitrary: n)
  case 0
  then show ?case by (subst ndigits.simps) simp
next
  case (Suc k)
  have "n div b < b ^ k"
    using Suc.prems by (simp add: less_mult_imp_div_less mult.commute)
  from Suc.IH[OF Suc.prems(1) this] show ?case
    by (subst ndigits.simps) simp
qed

lemma ilog_upper:
  assumes "2 \<le> b" "0 < k" "num < b ^ k * den"
  shows "ilog b num den < int k"
proof (cases "den \<le> num")
  case True
  have "num div den < b ^ k"
    using assms(3) by (simp add: less_mult_imp_div_less)
  from ndigits_le[OF assms(1) this] True show ?thesis
    by (simp add: ilog_def)
next
  case False
  with assms(2) show ?thesis by (simp add: ilog_def)
qed

lemma round_half_even_lower:
  assumes "0 < den"
  shows "(2 * round_half_even num den - 1) * den \<le> 2 * num"
proof -
  let ?q = "num div den" and ?r = "num mod den"
  have num: "num = ?q * den + ?r" by simp
  have up: "(2 * (?q + 1) - 1) * den \<le> 2 * num" if "den \<le> 2 * ?r"
  proof -
    have "(2 * (?q + 1) - 1) * den = 2 * ?q * den + den" by (simp add: algebra_simps)
    also have "\<dots> \<le> 2 * ?q * den + 2 * ?r" using that by simp
    also have "\<dots> = 2 * num" using num by (metis distrib_left mult.assoc)
    finally show ?thesis .
  qed
  have down: "(2 * ?q - 1) * den \<le> 2 * num"
  proof -
    have "(2 * ?q - 1) * den \<le> 2 * ?q * den" by simp
    also have "\<dots> \<le> 2 * num" using num by (metis le_add1 mult.assoc mult_le_mono2)
    finally show ?thesis .
  qed
  show ?thesis
    using up down by (auto simp: round_half_even_def Let_def)
qed

lemma strtod_round_finite:
  assumes "0 < den" "\<not> fst (strtod_round neg num den)"
  shows "isfinite (snd (strtod_round neg num den))"
proof (cases "num = 0")
  case True
  then show ?thesis by (simp add: strtod_round_def isfinite_def)
next
  case False
  from assms(2) False have small: "\<not> (2 ^ 1024 - 2 ^ 970) * den \<le> num"
    by (auto simp: strtod_round_def split: if_splits)
  define e0 where "e0 = max (ilog 2 num den - 52) (- 1074)"
  define m0 where "m0 = round_scaled 2 num den e0"
  define m where "m = (if m0 = 2 ^ 53 then 2 ^ 52 else m0)"
  define e where "e = (if m0 = 2 ^ 53 then e0 + 1 else e0)"
  have res: "snd (strtod_round neg num den) =
      (if m < 2 ^ 52 then Double neg 0 (of_nat m)
       else Double neg (of_int (e + 1075)) (of_nat (m - 2 ^ 52)))"
    using False small unfolding strtod_round_def to_double_def Let_def e0_def m0_def m_def e_def
    by simp
  have "num < 2 ^ 1024 * den"
  proof -
    have "(2 ^ 1024 - 2 ^ 970) * den \<le> 2 ^ 1024 * den" by (rule mult_le_mono1) simp
    with small show ?thesis by simp
  qed
  from ilog_upper[OF _ _ this] have "ilog 2 num den < 1024" by simp
  then have e0: "- 1074 \<le> e0" "e0 \<le> 971" by (simp_all add: e0_def)
  have e: "- 1074 \<le> e \<and> e \<le> 971"
  proof (cases "m0 = 2 ^ 53")
    case False
    with e0 show ?thesis by (simp add: e_def)
  next
    case True
    have "e0 \<noteq> 971"
    proof
      assume "e0 = 971"
      then have "m0 = round_half_even num (den * 2 ^ 971)"
        by (simp add: m0_def round_scaled_def)
      with True round_half_even_lower[of "den * 2 ^ 971" num] assms(1)
      have "(2 * 2 ^ 53 - 1) * (den * 2 ^ 971) \<le> 2 * num" by simp
      then have "(2 ^ 1024 - 2 ^ 970) * den \<le> num" by simp
      with small show False by simp
    qed
    with e0 True show ?thesis by (simp add: e_def)
  qed
  have "(of_int (e + 1075) :: 11 word) \<noteq> 2047"
  proof
    assume "(of_int (e + 1075) :: 11 word) = 2047"
    then have "(of_int (e + 1075) :: 11 word) = of_int 2047" by simp
    then have "take_bit 11 (e + 1075) = take_bit 11 (2047 :: int)"
      by (simp only: word_of_int_eq_iff) simp
    moreover have "take_bit 11 (e + 1075) = e + 1075"
      using e by (simp add: take_bit_int_eq_self)
    ultimately show False using e by simp
  qed
  then show ?thesis by (simp add: res isfinite_def)
qed

lemma stod_finite: "stod t = Inr d \<Longrightarrow> isfinite d"
  by (auto simp: stod_def Let_def strtod_round_finite split: if_splits)

subsection \<open>Numbers out of range\<close>

lemma token_1e999: "is_number_token ''1e999''"
  using is_number_tokenI[of "[]" "''1''" "[]" "''e999''"]
  by (simp add: is_int_part_def is_frac_part_def is_exp_part_def isdigit_def)

lemma stod_1e999: "stod ''1e999'' = Inl out_of_range"
  by (simp add: number_eval)

lemma parse_1e999: "parse ''1e999'' = Inl out_of_range"
  using parse_number_token_total[OF token_1e999] by (simp add: stod_1e999)

text \<open>
  C5, as the spec states it, fails: \<^verbatim>\<open>1e999\<close> is a well-formed number token, and \<open>parse\<close>
  fails on it with the \<open>out_of_range\<close> that \<^verbatim>\<open>std::stod\<close> throws.
\<close>

theorem overflow_fails:
  "is_number_token ''1e999'' \<and> parse ''1e999'' = Inl out_of_range"
  using token_1e999 parse_1e999 by simp

text \<open>
  C5, amended. On a well-formed number token \<open>parse\<close> returns what \<^verbatim>\<open>std::stod\<close> returns for it
  and throws what \<^verbatim>\<open>std::stod\<close> throws; \<^verbatim>\<open>std::stod\<close> throws \<open>out_of_range\<close> when the value
  overflows, as for \<^verbatim>\<open>1e999\<close>, and a double it returns is never an infinity or a NaN.
\<close>

theorem number_conversion_errors:
  "(is_number_token t \<longrightarrow>
      parse t = (case stod t of Inl e \<Rightarrow> Inl e | Inr d \<Rightarrow> Inr (Number d))) \<and>
   (stod t = Inr d \<longrightarrow> isfinite d) \<and>
   stod ''1e999'' = Inl out_of_range \<and>
   parse ''1e999'' = Inl out_of_range"
  using parse_number_token_total[of t] stod_finite[of t d] stod_1e999 parse_1e999 by simp

theorem number_conversion_errors_witness:
  "is_number_token ''-1.5e3'' \<and>
   stod ''-1.5e3'' = Inr (Double True 1033 0x7700000000000) \<and>
   parse ''-1.5e3'' = Inr (Number (Double True 1033 0x7700000000000)) \<and>
   isfinite (Double True 1033 0x7700000000000)"
proof -
  have t: "is_number_token ''-1.5e3''"
    using is_number_tokenI[of "''-''" "''1''" "''.5''" "''e3''"]
    by (simp add: is_int_part_def is_frac_part_def is_exp_part_def isdigit_def)
  have s: "stod ''-1.5e3'' = Inr (Double True 1033 0x7700000000000)"
    by (simp add: number_eval)
  with t number_conversion_errors[of "''-1.5e3''" "Double True 1033 0x7700000000000"]
  show ?thesis by simp
qed

subsection \<open>Exact values\<close>



















subsection \<open>The conversion of the exact value of a double\<close>









subsection \<open>The value of a digit string\<close>












subsection \<open>The conversion of the text of a number\<close>









subsection \<open>Doubles of at most 15 significant decimal digits\<close>

text \<open>
  A finite double whose exact value can be written with at most 15 significant decimal
  digits: zero, or a value that is a whole multiple of \<open>10^(X - 14)\<close>, where \<open>X\<close> is
  the decimal exponent of its leading digit. The rendering with 15 digits is exact for
  such a double.
\<close>

definition exact_in_15_digits :: "double \<Rightarrow> bool" where
  "exact_in_15_digits d =
     (significand d = 0 \<or>
      (let e = exponent d;
           num = (if 0 \<le> e then significand d * 2 ^ nat e else significand d);
           den = (if 0 \<le> e then 1 else 2 ^ nat (- e))
       in exact_scaled 10 num den (ilog 10 num den - 14)))"







subsection \<open>Scalars through dump and parse\<close>







text \<open>
  The doubles of at most 15 digits are not the only ones that come back: the double nearest
  to \<open>0.1\<close>, whose exact value has 55 digits, is dumped as \<^verbatim>\<open>0.1\<close> and read back.
\<close>

lemma fmt_tenth: "fmt_g15 (Double False 1019 0x999999999999A) = ''0.1''"
  by (simp add: number_eval)

lemma stod_tenth: "stod ''0.1'' = Inr (Double False 1019 0x999999999999A)"
  by (simp add: number_eval)

lemma tenth_round_trip:
  "\<not> exact_in_15_digits (Double False 1019 0x999999999999A) \<and>
   parse (dump (Number (Double False 1019 0x999999999999A)) (- 1))
     = Inr (Number (Double False 1019 0x999999999999A))"
proof -
  have "\<not> exact_in_15_digits (Double False 1019 0x999999999999A)"
    by (simp add: exact_in_15_digits_def number_eval)
  moreover have "parse (fmt_g15 (Double False 1019 0x999999999999A))
      = Inr (Number (Double False 1019 0x999999999999A))"
    using parse_fmt_g15[of "Double False 1019 0x999999999999A"]
    by (simp add: fmt_tenth stod_tenth isfinite_def)
  ultimately show ?thesis by (simp add: dump_def)
qed




end
